theory Spec2Isabelle
  imports Complex_Main
begin

unbundle bit_operations_syntax

section \<open>The multiplication engine of libbcmath (recmul.c)\<close>

text \<open>
  A shallow embedding of \<^verbatim>\<open>ext/bcmath/libbcmath/src/recmul.c\<close>. Every C function of
  the file is a HOL function of the same name. Unsigned machine integers are natural
  numbers with the wrap-around written out (\<open>mod 2 ^ bits\<close>) at every operation that can
  exceed the type. Pointers into a digit buffer are integer offsets from the start of the
  buffer, so that \<^verbatim>\<open>pend--\<close> may step below the first cell the way the C pointer does.
  Arrays are lists, updated by index. The two conditional-compilation axes of the file
  (\<^verbatim>\<open>SIZEOF_SIZE_T\<close> and \<^verbatim>\<open>BC_LITTLE_ENDIAN\<close>) are the two fields of a \<open>platform\<close>,
  so that every theorem quantified over the platform covers the four builds.
\<close>

subsection \<open>Platform, types and constants\<close>

datatype size_t_width = SIZEOF_SIZE_T_4 | SIZEOF_SIZE_T_8

datatype byte_order = BC_LITTLE_ENDIAN | BC_BIG_ENDIAN

datatype platform = Platform (sizeof_size_t: size_t_width) (endianness: byte_order)

text \<open>\<^verbatim>\<open>#define BC_MUL_UINT_DIGITS\<close> and \<^verbatim>\<open>#define BC_MUL_UINT_OVERFLOW\<close> (lines 40 to 46).\<close>

definition BC_MUL_UINT_DIGITS :: "platform \<Rightarrow> nat" where
  "BC_MUL_UINT_DIGITS pf =
     (case sizeof_size_t pf of SIZEOF_SIZE_T_8 \<Rightarrow> 8 | SIZEOF_SIZE_T_4 \<Rightarrow> 4)"

definition BC_MUL_UINT_OVERFLOW :: "platform \<Rightarrow> nat" where
  "BC_MUL_UINT_OVERFLOW pf =
     (case sizeof_size_t pf of SIZEOF_SIZE_T_8 \<Rightarrow> 100000000 | SIZEOF_SIZE_T_4 \<Rightarrow> 10000)"

text \<open>
  Modelled from the spec: the type \<^verbatim>\<open>BC_UINT_T\<close> is declared in \<^verbatim>\<open>private.h\<close>, which is
  not part of the sources at hand. The specification calls it the native unsigned integer
  of the platform, 64 bits wide where the limb holds 8 digits and 32 bits wide where it
  holds 4; \<^verbatim>\<open>bc_parse_chunk_chars\<close> returns \<^verbatim>\<open>uint64_t\<close> and \<^verbatim>\<open>uint32_t\<close> accordingly.
\<close>

definition BC_UINT_BITS :: "platform \<Rightarrow> nat" where
  "BC_UINT_BITS pf =
     (case sizeof_size_t pf of SIZEOF_SIZE_T_8 \<Rightarrow> 64 | SIZEOF_SIZE_T_4 \<Rightarrow> 32)"

text \<open>The largest value of \<^verbatim>\<open>BC_UINT_T\<close>, written \<^verbatim>\<open>~((BC_UINT_T) 0)\<close> in the source.\<close>

definition BC_UINT_MAX :: "platform \<Rightarrow> nat" where
  "BC_UINT_MAX pf = 2 ^ BC_UINT_BITS pf - 1"

text \<open>The value an unsigned operation leaves in a \<^verbatim>\<open>BC_UINT_T\<close>: its result modulo \<open>2 ^ bits\<close>.\<close>

definition BC_UINT_T :: "platform \<Rightarrow> nat \<Rightarrow> nat" where
  "BC_UINT_T pf x = x mod 2 ^ BC_UINT_BITS pf"

definition uint32_t :: "nat \<Rightarrow> nat" where
  "uint32_t x = x mod 2 ^ 32"

text \<open>\<^verbatim>\<open>#define BC_MUL_MAX_ADD_COUNT\<close> (line 48); the product in the divisor is itself
  computed in \<^verbatim>\<open>BC_UINT_T\<close>.\<close>

definition BC_MUL_MAX_ADD_COUNT :: "platform \<Rightarrow> nat" where
  "BC_MUL_MAX_ADD_COUNT pf =
     BC_UINT_MAX pf div BC_UINT_T pf (BC_MUL_UINT_OVERFLOW pf * BC_MUL_UINT_OVERFLOW pf)"

text \<open>Modelled from the spec: \<^verbatim>\<open>BASE\<close> comes from \<^verbatim>\<open>bcmath.h\<close>; digits are always base 10.\<close>

definition BASE :: nat where
  "BASE = 10"

subsection \<open>What an array stands for\<close>

text \<open>
  The number that a sequence stands for in base \<open>b\<close>, least significant element first:
  an array of limbs in base \<open>10 ^ W\<close>, or the bytes of a word in base 256. A sequence of
  decimal digits is kept most significant digit first.
\<close>

fun limbs_val :: "nat \<Rightarrow> nat list \<Rightarrow> nat" where
  "limbs_val b [] = 0"
| "limbs_val b (x # xs) = x + b * limbs_val b xs"

definition digits_val :: "nat list \<Rightarrow> nat" where
  "digits_val ds = limbs_val 10 (rev ds)"

subsection \<open>The number structure\<close>

datatype sign = PLUS | MINUS

text \<open>
  \<^verbatim>\<open>bc_struct\<close>: \<open>n_value\<close> is the memory that the pointer of the same name points to, one
  digit value per \<^verbatim>\<open>char\<close>, most significant first. The digits of the number are its first
  \<open>n_len + n_scale\<close> cells. A \<^verbatim>\<open>char\<close> is modelled by its value as a natural number; on the
  digit values 0 to 9 the conversions of \<^verbatim>\<open>char\<close> to the unsigned types do not depend on
  whether \<^verbatim>\<open>char\<close> is signed.
\<close>

record bc_struct =
  n_sign :: sign
  n_len :: nat
  n_scale :: nat
  n_value :: "nat list"

text \<open>
  Freshly allocated memory is not initialised by \<^verbatim>\<open>safe_emalloc\<close> nor by
  \<^verbatim>\<open>bc_new_num_nonzeroed\<close>. What it holds is a parameter of the model: two arbitrary
  functions from the cell's offset to the value found there.
\<close>

record uninit =
  emalloc_junk :: "nat \<Rightarrow> nat"
  num_junk :: "nat \<Rightarrow> nat"

definition safe_emalloc :: "uninit \<Rightarrow> nat \<Rightarrow> nat list" where
  "safe_emalloc heap n = map (emalloc_junk heap) [0..<n]"

text \<open>
  Modelled from the spec: \<^verbatim>\<open>bc_new_num_nonzeroed\<close> is the allocator of the surrounding
  library, "capable of producing a zero-initialized or uninitialized Num of a given total
  digit count". It returns a positive number of the given integer length and scale over
  uninitialised digits.
\<close>

definition bc_new_num_nonzeroed :: "uninit \<Rightarrow> nat \<Rightarrow> nat \<Rightarrow> bc_struct" where
  "bc_new_num_nonzeroed heap len scale =
     \<lparr>n_sign = PLUS, n_len = len, n_scale = scale,
      n_value = map (num_junk heap) [0..<len + scale]\<rparr>"

text \<open>Reading the cell at an offset; outside the buffer the C behaviour is undefined.\<close>

definition deref :: "nat list \<Rightarrow> int \<Rightarrow> nat" where
  "deref buf p = (if 0 \<le> p \<and> p < int (length buf) then buf ! nat p else undefined)"

text \<open>
  Stores into a buffer are collected in program order as pairs of offset and value, and
  applied afterwards. A store outside the buffer is undefined behaviour in C; here it
  leaves the buffer as it is.
\<close>

definition store :: "nat list \<Rightarrow> int \<times> nat \<Rightarrow> nat list" where
  "store mem s = (if 0 \<le> fst s \<and> fst s < int (length mem) then mem[nat (fst s) := snd s] else mem)"

subsection \<open>Carry normalisation\<close>

text \<open>
  \<^verbatim>\<open>bc_digits_adjustment\<close> (lines 53 to 59). The bound \<^verbatim>\<open>prod_arr_size - 1\<close> is a \<^verbatim>\<open>size_t\<close>:
  every caller passes a size of at least 1.
\<close>

function bc_digits_adjustment_loop :: "platform \<Rightarrow> nat list \<Rightarrow> nat \<Rightarrow> nat \<Rightarrow> nat list" where
  "bc_digits_adjustment_loop pf prod_uint prod_arr_size i =
     (if i < prod_arr_size - 1 then
        let prod_uint1 = prod_uint[i + 1 :=
              BC_UINT_T pf (prod_uint ! (i + 1) + prod_uint ! i div BC_MUL_UINT_OVERFLOW pf)];
            prod_uint2 = prod_uint1[i := prod_uint1 ! i mod BC_MUL_UINT_OVERFLOW pf]
        in bc_digits_adjustment_loop pf prod_uint2 prod_arr_size (i + 1)
      else prod_uint)"
  by pat_completeness auto
termination
  by (relation "measure (\<lambda>(pf, prod_uint, prod_arr_size, i). prod_arr_size - 1 - i)") auto

declare bc_digits_adjustment_loop.simps [simp del]

definition bc_digits_adjustment :: "platform \<Rightarrow> nat list \<Rightarrow> nat \<Rightarrow> nat list" where
  "bc_digits_adjustment pf prod_uint prod_arr_size =
     bc_digits_adjustment_loop pf prod_uint prod_arr_size 0"

text \<open>
  The same walk, reporting whether any of its additions exceeds \<^verbatim>\<open>BC_UINT_T\<close>: at each
  step the exact sum is compared with the largest value of the type, and the walk goes
  on with the array as the code leaves it.
\<close>

function bc_digits_adjustment_wraps :: "platform \<Rightarrow> nat list \<Rightarrow> nat \<Rightarrow> nat \<Rightarrow> bool" where
  "bc_digits_adjustment_wraps pf prod_uint prod_arr_size i =
     (if i < prod_arr_size - 1 then
        let prod_uint1 = prod_uint[i + 1 :=
              BC_UINT_T pf (prod_uint ! (i + 1) + prod_uint ! i div BC_MUL_UINT_OVERFLOW pf)];
            prod_uint2 = prod_uint1[i := prod_uint1 ! i mod BC_MUL_UINT_OVERFLOW pf]
        in BC_UINT_MAX pf < prod_uint ! (i + 1) + prod_uint ! i div BC_MUL_UINT_OVERFLOW pf
           \<or> bc_digits_adjustment_wraps pf prod_uint2 prod_arr_size (i + 1)
      else False)"
  by pat_completeness auto
termination
  by (relation "measure (\<lambda>(pf, prod_uint, prod_arr_size, i). prod_arr_size - 1 - i)") auto

declare bc_digits_adjustment_wraps.simps [simp del]

subsection \<open>Packing digits into a limb\<close>

text \<open>
  \<^verbatim>\<open>memcpy\<close> between a byte buffer and an integer object: the first byte in memory is the
  least significant on a little-endian platform and the most significant on a big-endian
  one. \<open>le_int\<close> is the value of a byte sequence read least significant byte first.
\<close>

definition le_int :: "nat list \<Rightarrow> nat" where
  "le_int bytes = limbs_val 256 bytes"

definition le_bytes :: "nat \<Rightarrow> nat \<Rightarrow> nat list" where
  "le_bytes n x = map (\<lambda>k. x div 256 ^ k mod 256) [0..<n]"

definition memcpy_load :: "byte_order \<Rightarrow> nat list \<Rightarrow> nat" where
  "memcpy_load order bytes =
     (case order of BC_LITTLE_ENDIAN \<Rightarrow> le_int bytes | BC_BIG_ENDIAN \<Rightarrow> le_int (rev bytes))"

definition memcpy_store :: "byte_order \<Rightarrow> int \<Rightarrow> nat \<Rightarrow> nat \<Rightarrow> (int \<times> nat) list" where
  "memcpy_store order dst n x =
     zip (map (\<lambda>k. dst + int k) [0..<n])
       (case order of BC_LITTLE_ENDIAN \<Rightarrow> le_bytes n x | BC_BIG_ENDIAN \<Rightarrow> rev (le_bytes n x))"

text \<open>
  Modelled from the spec: \<^verbatim>\<open>BC_BSWAP\<close> is a macro of \<^verbatim>\<open>private.h\<close>; it reverses the bytes of
  a word, which is how the specification has the byte order handled "explicitly so digit
  order is preserved".
\<close>

definition BC_BSWAP :: "nat \<Rightarrow> nat \<Rightarrow> nat" where
  "BC_BSWAP n x = le_int (rev (le_bytes n x))"

definition chunk_bytes :: "nat list \<Rightarrow> int \<Rightarrow> nat \<Rightarrow> nat list" where
  "chunk_bytes buf str n = map (\<lambda>k. deref buf (str + int k)) [0..<n]"

text \<open>\<^verbatim>\<open>bc_parse_chunk_chars\<close> for \<^verbatim>\<open>SIZEOF_SIZE_T == 4\<close> (lines 69 to 86).\<close>

definition bc_parse_chunk_chars_32 :: "byte_order \<Rightarrow> nat list \<Rightarrow> int \<Rightarrow> nat" where
  "bc_parse_chunk_chars_32 order buf str =
     (let tmp = memcpy_load order (chunk_bytes buf str 4);
          tmp = (if order \<noteq> BC_LITTLE_ENDIAN then BC_BSWAP 4 tmp else tmp);
          lower_digits = drop_bit 8 (tmp AND 0x0f000f00);
          upper_digits = uint32_t ((tmp AND 0x000f000f) * 10);
          tmp = uint32_t (lower_digits + upper_digits);
          lower_digits = drop_bit 16 (tmp AND 0x00ff0000);
          upper_digits = uint32_t ((tmp AND 0x000000ff) * 100)
      in uint32_t (lower_digits + upper_digits))"

text \<open>\<^verbatim>\<open>bc_parse_chunk_chars\<close> for \<^verbatim>\<open>SIZEOF_SIZE_T == 8\<close> (lines 88 to 110).\<close>

definition uint64_t :: "nat \<Rightarrow> nat" where
  "uint64_t x = x mod 2 ^ 64"

definition bc_parse_chunk_chars_64 :: "byte_order \<Rightarrow> nat list \<Rightarrow> int \<Rightarrow> nat" where
  "bc_parse_chunk_chars_64 order buf str =
     (let tmp = memcpy_load order (chunk_bytes buf str 8);
          tmp = (if order \<noteq> BC_LITTLE_ENDIAN then BC_BSWAP 8 tmp else tmp);
          lower_digits = drop_bit 8 (tmp AND 0x0f000f000f000f00);
          upper_digits = uint64_t ((tmp AND 0x000f000f000f000f) * 10);
          tmp = uint64_t (lower_digits + upper_digits);
          lower_digits = drop_bit 16 (tmp AND 0x00ff000000ff0000);
          upper_digits = uint64_t ((tmp AND 0x000000ff000000ff) * 100);
          tmp = uint64_t (lower_digits + upper_digits);
          lower_digits = drop_bit 32 (tmp AND 0x0000ffff00000000);
          upper_digits = uint64_t ((tmp AND 0x000000000000ffff) * 10000)
      in uint64_t (lower_digits + upper_digits))"

definition bc_parse_chunk_chars :: "platform \<Rightarrow> nat list \<Rightarrow> int \<Rightarrow> nat" where
  "bc_parse_chunk_chars pf buf str =
     (case sizeof_size_t pf of
        SIZEOF_SIZE_T_4 \<Rightarrow> bc_parse_chunk_chars_32 (endianness pf) buf str
      | SIZEOF_SIZE_T_8 \<Rightarrow> bc_parse_chunk_chars_64 (endianness pf) buf str)"

text \<open>\<^verbatim>\<open>bc_partial_convert_to_uint\<close> (lines 117 to 133): the loop, then the function.\<close>

function bc_partial_convert_loop ::
  "platform \<Rightarrow> nat list \<Rightarrow> int \<Rightarrow> nat \<Rightarrow> nat \<Rightarrow> nat \<Rightarrow> nat \<Rightarrow> nat" where
  "bc_partial_convert_loop pf buf n len i num base =
     (if i < len then
        bc_partial_convert_loop pf buf (n - 1) len (i + 1)
          (BC_UINT_T pf (num + BC_UINT_T pf (deref buf n * base)))
          (BC_UINT_T pf (base * BASE))
      else num)"
  by pat_completeness auto
termination
  by (relation "measure (\<lambda>(pf, buf, n, len, i, num, base). len - i)") auto

declare bc_partial_convert_loop.simps [simp del]

definition bc_partial_convert_to_uint :: "platform \<Rightarrow> nat list \<Rightarrow> int \<Rightarrow> nat \<Rightarrow> nat" where
  "bc_partial_convert_to_uint pf buf n len =
     (if len = BC_MUL_UINT_DIGITS pf then
        bc_parse_chunk_chars pf buf (n - int (BC_MUL_UINT_DIGITS pf) + 1)
      else bc_partial_convert_loop pf buf n len 0 0 1)"

text \<open>\<^verbatim>\<open>bc_convert_to_uint\<close> (lines 135 to 145).\<close>

function bc_convert_to_uint ::
  "platform \<Rightarrow> nat list \<Rightarrow> nat list \<Rightarrow> int \<Rightarrow> nat \<Rightarrow> nat \<Rightarrow> nat list" where
  "bc_convert_to_uint pf n_uint buf nend nlen i =
     (if nlen > 0 then
        let len = min (BC_MUL_UINT_DIGITS pf) nlen
        in bc_convert_to_uint pf (n_uint[i := bc_partial_convert_to_uint pf buf nend len])
             buf (nend - int len) (nlen - len) (i + 1)
      else n_uint)"
  by pat_completeness auto
termination
  by (relation "measure (\<lambda>(pf, n_uint, buf, nend, nlen, i). nlen)")
     (auto simp: BC_MUL_UINT_DIGITS_def split: size_t_width.splits)

declare bc_convert_to_uint.simps [simp del]

subsection \<open>Writing digits\<close>

text \<open>
  The loop \<^verbatim>\<open>while (pend >= pptr) { *pend-- = prod_uint % BASE; prod_uint /= BASE; }\<close>,
  which ends both \<^verbatim>\<open>bc_fast_mul\<close> (lines 165 to 168) and \<^verbatim>\<open>bc_standard_mul\<close> (lines 300 to
  303). It returns the stores it makes and the value left in \<^verbatim>\<open>prod_uint\<close>.
\<close>

function bc_write_digits :: "int \<Rightarrow> int \<Rightarrow> nat \<Rightarrow> (int \<times> nat) list \<times> nat" where
  "bc_write_digits pptr pend prod_uint =
     (if pend \<ge> pptr then
        case bc_write_digits pptr (pend - 1) (prod_uint div BASE) of
          (stores, rest) \<Rightarrow> ((pend, prod_uint mod BASE) # stores, rest)
      else ([], prod_uint))"
  by pat_completeness auto
termination
  by (relation "measure (\<lambda>(pptr, pend, prod_uint). nat (pend - pptr + 1))") auto

declare bc_write_digits.simps [simp del]

text \<open>\<^verbatim>\<open>bc_fast_mul\<close> (lines 151 to 169).\<close>

definition bc_fast_mul :: "platform \<Rightarrow> uninit \<Rightarrow> bc_struct \<Rightarrow> nat \<Rightarrow> bc_struct \<Rightarrow> nat \<Rightarrow> bc_struct" where
  "bc_fast_mul pf heap n1 n1len n2 n2len =
     (let n1end = int n1len - 1;
          n2end = int n2len - 1;
          n1_uint = bc_partial_convert_to_uint pf (n_value n1) n1end n1len;
          n2_uint = bc_partial_convert_to_uint pf (n_value n2) n2end n2len;
          prod_uint = BC_UINT_T pf (n1_uint * n2_uint);
          prodlen = n1len + n2len;
          prod = bc_new_num_nonzeroed heap prodlen 0;
          pptr = 0;
          pend = pptr + int prodlen - 1
      in prod\<lparr>n_value := foldl store (n_value prod) (fst (bc_write_digits pptr pend prod_uint))\<rparr>)"

text \<open>\<^verbatim>\<open>BC_ENCODE_LUT\<close>, \<^verbatim>\<open>LUT_ITERATE\<close> and \<^verbatim>\<open>LUT\<close> (lines 171 to 193).\<close>

definition BC_ENCODE_LUT :: "byte_order \<Rightarrow> nat \<Rightarrow> nat \<Rightarrow> nat" where
  "BC_ENCODE_LUT order A B =
     (case order of
        BC_LITTLE_ENDIAN \<Rightarrow> A OR push_bit 4 B
      | BC_BIG_ENDIAN \<Rightarrow> B OR push_bit 4 A)"

definition LUT_ITERATE :: "(nat \<Rightarrow> nat \<Rightarrow> nat) \<Rightarrow> nat \<Rightarrow> nat list" where
  "LUT_ITERATE f A = [f A 0, f A 1, f A 2, f A 3, f A 4, f A 5, f A 6, f A 7, f A 8, f A 9]"

definition LUT :: "byte_order \<Rightarrow> nat list" where
  "LUT order =
     LUT_ITERATE (BC_ENCODE_LUT order) 0 @ LUT_ITERATE (BC_ENCODE_LUT order) 1 @
     LUT_ITERATE (BC_ENCODE_LUT order) 2 @ LUT_ITERATE (BC_ENCODE_LUT order) 3 @
     LUT_ITERATE (BC_ENCODE_LUT order) 4 @ LUT_ITERATE (BC_ENCODE_LUT order) 5 @
     LUT_ITERATE (BC_ENCODE_LUT order) 6 @ LUT_ITERATE (BC_ENCODE_LUT order) 7 @
     LUT_ITERATE (BC_ENCODE_LUT order) 8 @ LUT_ITERATE (BC_ENCODE_LUT order) 9"

text \<open>\<^verbatim>\<open>bc_expand_lut\<close> (lines 195 to 198); the result is an \<^verbatim>\<open>unsigned short\<close>.\<close>

definition bc_expand_lut :: "nat \<Rightarrow> nat" where
  "bc_expand_lut c = ((c AND 0x0f) OR push_bit 4 (c AND 0xf0)) mod 2 ^ 16"

text \<open>
  \<^verbatim>\<open>bc_write_bcd_representation\<close> (lines 202 to 215). The table is read at \<open>upper\<close> and
  \<open>lower\<close>; an index of 100 or more is outside the table. The result is the four stores
  that \<^verbatim>\<open>memcpy\<close> makes at \<open>str\<close>.
\<close>

definition bc_write_bcd_representation :: "byte_order \<Rightarrow> nat \<Rightarrow> int \<Rightarrow> (int \<times> nat) list" where
  "bc_write_bcd_representation order val str =
     (let upper = val div 100;
          lower = val mod 100;
          digits =
            (case order of
               BC_LITTLE_ENDIAN \<Rightarrow>
                 uint32_t (push_bit 16 (bc_expand_lut (LUT order ! lower)) OR bc_expand_lut (LUT order ! upper))
             | BC_BIG_ENDIAN \<Rightarrow>
                 uint32_t (push_bit 16 (bc_expand_lut (LUT order ! upper)) OR bc_expand_lut (LUT order ! lower)))
      in memcpy_store order str 4 digits)"

subsection \<open>The standard multiplier\<close>

text \<open>The loop that clears the accumulator (lines 247 to 249).\<close>

function bc_zero_fill :: "nat list \<Rightarrow> nat \<Rightarrow> nat \<Rightarrow> nat list" where
  "bc_zero_fill prod_uint prod_arr_size i =
     (if i < prod_arr_size then bc_zero_fill (prod_uint[i := 0]) prod_arr_size (i + 1)
      else prod_uint)"
  by pat_completeness auto
termination
  by (relation "measure (\<lambda>(prod_uint, prod_arr_size, i). prod_arr_size - i)") auto

declare bc_zero_fill.simps [simp del]

text \<open>The inner loop of the multiplication (lines 268 to 270).\<close>

function bc_mul_add_inner ::
  "platform \<Rightarrow> nat list \<Rightarrow> nat list \<Rightarrow> nat \<Rightarrow> nat list \<Rightarrow> nat \<Rightarrow> nat \<Rightarrow> nat list" where
  "bc_mul_add_inner pf n1_uint n2_uint n2_arr_size prod_uint i j =
     (if j < n2_arr_size then
        bc_mul_add_inner pf n1_uint n2_uint n2_arr_size
          (prod_uint[i + j :=
             BC_UINT_T pf (prod_uint ! (i + j) + BC_UINT_T pf (n1_uint ! i * n2_uint ! j))])
          i (j + 1)
      else prod_uint)"
  by pat_completeness auto
termination
  by (relation "measure (\<lambda>(pf, n1_uint, n2_uint, n2_arr_size, prod_uint, i, j). n2_arr_size - j)")
     auto

declare bc_mul_add_inner.simps [simp del]

text \<open>The outer loop (lines 256 to 271), with the counter of additions since the last
  carry normalisation.\<close>

function bc_mul_add_outer ::
  "platform \<Rightarrow> nat list \<Rightarrow> nat \<Rightarrow> nat list \<Rightarrow> nat \<Rightarrow> nat list \<Rightarrow> nat \<Rightarrow> nat \<Rightarrow> nat \<Rightarrow> nat list" where
  "bc_mul_add_outer pf n1_uint n1_arr_size n2_uint n2_arr_size prod_uint prod_arr_size count i =
     (if i < n1_arr_size then
        let adjust = (count \<ge> BC_MUL_MAX_ADD_COUNT pf);
            prod_uint1 = (if adjust then bc_digits_adjustment pf prod_uint prod_arr_size
                          else prod_uint);
            count1 = (if adjust then 0 else count);
            count2 = count1 + 1;
            prod_uint2 = bc_mul_add_inner pf n1_uint n2_uint n2_arr_size prod_uint1 i 0
        in bc_mul_add_outer pf n1_uint n1_arr_size n2_uint n2_arr_size
             prod_uint2 prod_arr_size count2 (i + 1)
      else prod_uint)"
  by pat_completeness auto
termination
  by (relation "measure (\<lambda>(pf, n1_uint, n1_arr_size, n2_uint, n2_arr_size, prod_uint,
        prod_arr_size, count, i). n1_arr_size - i)") auto

declare bc_mul_add_outer.simps [simp del]

text \<open>
  The same two loops, reporting whether a multiplication or an addition of theirs, or of
  the carry normalisation they trigger, exceeds \<^verbatim>\<open>BC_UINT_T\<close>.
\<close>

function bc_mul_add_inner_wraps ::
  "platform \<Rightarrow> nat list \<Rightarrow> nat list \<Rightarrow> nat \<Rightarrow> nat list \<Rightarrow> nat \<Rightarrow> nat \<Rightarrow> bool" where
  "bc_mul_add_inner_wraps pf n1_uint n2_uint n2_arr_size prod_uint i j =
     (if j < n2_arr_size then
        BC_UINT_MAX pf < n1_uint ! i * n2_uint ! j
        \<or> BC_UINT_MAX pf < prod_uint ! (i + j) + n1_uint ! i * n2_uint ! j
        \<or> bc_mul_add_inner_wraps pf n1_uint n2_uint n2_arr_size
          (prod_uint[i + j :=
             BC_UINT_T pf (prod_uint ! (i + j) + BC_UINT_T pf (n1_uint ! i * n2_uint ! j))])
          i (j + 1)
      else False)"
  by pat_completeness auto
termination
  by (relation "measure (\<lambda>(pf, n1_uint, n2_uint, n2_arr_size, prod_uint, i, j). n2_arr_size - j)")
     auto

declare bc_mul_add_inner_wraps.simps [simp del]

function bc_mul_add_outer_wraps ::
  "platform \<Rightarrow> nat list \<Rightarrow> nat \<Rightarrow> nat list \<Rightarrow> nat \<Rightarrow> nat list \<Rightarrow> nat \<Rightarrow> nat \<Rightarrow> nat \<Rightarrow> bool" where
  "bc_mul_add_outer_wraps pf n1_uint n1_arr_size n2_uint n2_arr_size prod_uint prod_arr_size count i =
     (if i < n1_arr_size then
        let adjust = (count \<ge> BC_MUL_MAX_ADD_COUNT pf);
            prod_uint1 = (if adjust then bc_digits_adjustment pf prod_uint prod_arr_size
                          else prod_uint);
            count1 = (if adjust then 0 else count);
            count2 = count1 + 1;
            prod_uint2 = bc_mul_add_inner pf n1_uint n2_uint n2_arr_size prod_uint1 i 0
        in (adjust \<and> bc_digits_adjustment_wraps pf prod_uint prod_arr_size 0)
           \<or> bc_mul_add_inner_wraps pf n1_uint n2_uint n2_arr_size prod_uint1 i 0
           \<or> bc_mul_add_outer_wraps pf n1_uint n1_arr_size n2_uint n2_arr_size
                prod_uint2 prod_arr_size count2 (i + 1)
      else False)"
  by pat_completeness auto
termination
  by (relation "measure (\<lambda>(pf, n1_uint, n1_arr_size, n2_uint, n2_arr_size, prod_uint,
        prod_arr_size, count, i). n1_arr_size - i)") auto

declare bc_mul_add_outer_wraps.simps [simp del]

text \<open>
  The first loop of the conversion to digits (lines 284 to 294): every limb but the last
  is written as \<^verbatim>\<open>BC_MUL_UINT_DIGITS\<close> digits. The argument of
  \<^verbatim>\<open>bc_write_bcd_representation\<close> is converted to \<^verbatim>\<open>uint32_t\<close>. The function returns \<open>i\<close> and
  \<open>pend\<close> as the loop leaves them, and the stores made.
\<close>

function bc_write_limbs ::
  "platform \<Rightarrow> nat list \<Rightarrow> nat \<Rightarrow> nat \<Rightarrow> int \<Rightarrow> nat \<times> int \<times> (int \<times> nat) list" where
  "bc_write_limbs pf prod_uint prod_arr_size i pend =
     (if i < prod_arr_size - 1 then
        let (stores, pend1) =
              (case sizeof_size_t pf of
                 SIZEOF_SIZE_T_4 \<Rightarrow>
                   (bc_write_bcd_representation (endianness pf) (uint32_t (prod_uint ! i)) (pend - 3),
                    pend - 4)
               | SIZEOF_SIZE_T_8 \<Rightarrow>
                   (bc_write_bcd_representation (endianness pf)
                      (uint32_t (prod_uint ! i div 10000)) (pend - 7) @
                    bc_write_bcd_representation (endianness pf)
                      (uint32_t (prod_uint ! i mod 10000)) (pend - 3),
                    pend - 8))
        in case bc_write_limbs pf prod_uint prod_arr_size (i + 1) pend1 of
             (i', pend', rest) \<Rightarrow> (i', pend', stores @ rest)
      else (i, pend, []))"
  by pat_completeness auto
termination
  by (relation "measure (\<lambda>(pf, prod_uint, prod_arr_size, i, pend). prod_arr_size - 1 - i)")
     (auto split: size_t_width.splits)

declare bc_write_limbs.simps [simp del]

text \<open>
  \<^verbatim>\<open>bc_standard_mul\<close> (lines 225 to 306), in four parts. \<open>bc_standard_mul_arrays\<close> is the
  state when the multiplication loop is entered: the three arrays, consecutive parts of
  one uninitialised allocation, after the accumulator is cleared and the operands are
  converted (lines 232 to 253). \<open>bc_standard_mul_limbs\<close> is the accumulator after the
  multiplication and the last carry normalisation (lines 255 to 277).
  \<open>bc_standard_mul_stores\<close> is the list of stores into the digit buffer of the product,
  in program order, with the value left in the last limb (lines 283 to 303).
  The sizes are \<^verbatim>\<open>size_t\<close>: \<^verbatim>\<open>prod_arr_size\<close> is at least 1 whenever both operands have a
  digit, or one of them has more than \<^verbatim>\<open>BC_MUL_UINT_DIGITS\<close> digits.
\<close>

definition bc_standard_mul_arrays ::
  "platform \<Rightarrow> uninit \<Rightarrow> bc_struct \<Rightarrow> nat \<Rightarrow> bc_struct \<Rightarrow> nat \<Rightarrow> nat list \<times> nat list \<times> nat list" where
  "bc_standard_mul_arrays pf heap n1 n1len n2 n2len =
     (let n1end = int n1len - 1;
          n2end = int n2len - 1;
          n1_arr_size = (n1len + BC_MUL_UINT_DIGITS pf - 1) div BC_MUL_UINT_DIGITS pf;
          n2_arr_size = (n2len + BC_MUL_UINT_DIGITS pf - 1) div BC_MUL_UINT_DIGITS pf;
          prod_arr_size = n1_arr_size + n2_arr_size - 1;
          buf = safe_emalloc heap (n1_arr_size + n2_arr_size + prod_arr_size);
          n1_uint = take n1_arr_size buf;
          n2_uint = take n2_arr_size (drop n1_arr_size buf);
          prod_uint = drop (n1_arr_size + n2_arr_size) buf;
          prod_uint = bc_zero_fill prod_uint prod_arr_size 0;
          n1_uint = bc_convert_to_uint pf n1_uint (n_value n1) n1end n1len 0;
          n2_uint = bc_convert_to_uint pf n2_uint (n_value n2) n2end n2len 0
      in (n1_uint, n2_uint, prod_uint))"

definition bc_standard_mul_limbs :: "platform \<Rightarrow> uninit \<Rightarrow> bc_struct \<Rightarrow> nat \<Rightarrow> bc_struct \<Rightarrow> nat \<Rightarrow> nat list" where
  "bc_standard_mul_limbs pf heap n1 n1len n2 n2len =
     (let n1_arr_size = (n1len + BC_MUL_UINT_DIGITS pf - 1) div BC_MUL_UINT_DIGITS pf;
          n2_arr_size = (n2len + BC_MUL_UINT_DIGITS pf - 1) div BC_MUL_UINT_DIGITS pf;
          prod_arr_size = n1_arr_size + n2_arr_size - 1
      in case bc_standard_mul_arrays pf heap n1 n1len n2 n2len of
           (n1_uint, n2_uint, prod_uint) \<Rightarrow>
             bc_digits_adjustment pf
               (bc_mul_add_outer pf n1_uint n1_arr_size n2_uint n2_arr_size
                  prod_uint prod_arr_size 0 0)
               prod_arr_size)"

definition bc_standard_mul_stores :: "platform \<Rightarrow> nat list \<Rightarrow> nat \<Rightarrow> nat \<Rightarrow> (int \<times> nat) list \<times> nat" where
  "bc_standard_mul_stores pf prod_uint prod_arr_size prodlen =
     (let pptr = 0;
          pend = pptr + int prodlen - 1
      in case bc_write_limbs pf prod_uint prod_arr_size 0 pend of
           (i, pend1, stores1) \<Rightarrow>
             (case bc_write_digits pptr pend1 (prod_uint ! i) of
                (stores2, rest) \<Rightarrow> (stores1 @ stores2, rest)))"

definition bc_standard_mul :: "platform \<Rightarrow> uninit \<Rightarrow> bc_struct \<Rightarrow> nat \<Rightarrow> bc_struct \<Rightarrow> nat \<Rightarrow> bc_struct" where
  "bc_standard_mul pf heap n1 n1len n2 n2len =
     (let prodlen = n1len + n2len;
          n1_arr_size = (n1len + BC_MUL_UINT_DIGITS pf - 1) div BC_MUL_UINT_DIGITS pf;
          n2_arr_size = (n2len + BC_MUL_UINT_DIGITS pf - 1) div BC_MUL_UINT_DIGITS pf;
          prod_arr_size = n1_arr_size + n2_arr_size - 1;
          prod_uint = bc_standard_mul_limbs pf heap n1 n1len n2 n2len;
          prod = bc_new_num_nonzeroed heap prodlen 0
      in prod\<lparr>n_value := foldl store (n_value prod)
                  (fst (bc_standard_mul_stores pf prod_uint prod_arr_size prodlen))\<rparr>)"

subsection \<open>The multiply routine\<close>

text \<open>
  Modelled from the spec: \<^verbatim>\<open>_bc_rm_leading_zeros\<close> and \<^verbatim>\<open>bc_is_zero\<close> are functions of the
  surrounding library. The first "trims leading zero digits from the result's integer
  part", keeping one digit of an integer part that is zero; the second holds when the
  number "equals zero", that is when all its digits are zero.
\<close>

function bc_rm_leading_zeros :: "bc_struct \<Rightarrow> bc_struct" where
  "bc_rm_leading_zeros num =
     (case n_value num of
        [] \<Rightarrow> num
      | d # ds \<Rightarrow>
          if d = 0 \<and> n_len num > 1
          then bc_rm_leading_zeros (num\<lparr>n_value := ds, n_len := n_len num - 1\<rparr>)
          else num)"
  by pat_completeness auto
termination
  by (relation "measure (\<lambda>num. length (n_value num))") auto

declare bc_rm_leading_zeros.simps [simp del]

definition bc_digits :: "bc_struct \<Rightarrow> nat list" where
  "bc_digits num = take (n_len num + n_scale num) (n_value num)"

definition bc_is_zero :: "bc_struct \<Rightarrow> bool" where
  "bc_is_zero num = list_all (\<lambda>d. d = 0) (bc_digits num)"

text \<open>\<^verbatim>\<open>bc_multiply\<close> (lines 312 to 338).\<close>

definition bc_multiply :: "platform \<Rightarrow> uninit \<Rightarrow> bc_struct \<Rightarrow> bc_struct \<Rightarrow> nat \<Rightarrow> bc_struct" where
  "bc_multiply pf heap n1 n2 scale =
     (let len1 = n_len n1 + n_scale n1;
          len2 = n_len n2 + n_scale n2;
          full_scale = n_scale n1 + n_scale n2;
          prod_scale = min full_scale (max scale (max (n_scale n1) (n_scale n2)));
          prod = (if len1 \<le> BC_MUL_UINT_DIGITS pf \<and> len2 \<le> BC_MUL_UINT_DIGITS pf
                  then bc_fast_mul pf heap n1 len1 n2 len2
                  else bc_standard_mul pf heap n1 len1 n2 len2);
          prod = prod\<lparr>n_sign := (if n_sign n1 = n_sign n2 then PLUS else MINUS)\<rparr>;
          prod = prod\<lparr>n_len := n_len prod - full_scale\<rparr>;
          prod = prod\<lparr>n_scale := prod_scale\<rparr>;
          prod = bc_rm_leading_zeros prod
      in if bc_is_zero prod then prod\<lparr>n_sign := PLUS\<rparr> else prod)"

subsection \<open>Terms of the specification\<close>

text \<open>
  The largest value that a limb of the accumulator can hold after \<open>c\<close> rounds of additions
  since the last carry normalisation: a normalised limb is at most \<open>10 ^ W - 1\<close>, and every
  round adds one product of two limbs, at most \<open>(10 ^ W - 1)\<^sup>2\<close>.
\<close>

definition slot_bound :: "platform \<Rightarrow> nat \<Rightarrow> nat" where
  "slot_bound pf c =
     (BC_MUL_UINT_OVERFLOW pf - 1)
     + c * ((BC_MUL_UINT_OVERFLOW pf - 1) * (BC_MUL_UINT_OVERFLOW pf - 1))"

text \<open>The number of limbs of an operand of \<open>len\<close> digits, which \<^verbatim>\<open>bc_standard_mul\<close>
  computes as \<^verbatim>\<open>(len + BC_MUL_UINT_DIGITS - 1) / BC_MUL_UINT_DIGITS\<close>.\<close>

definition limb_count :: "platform \<Rightarrow> nat \<Rightarrow> nat" where
  "limb_count pf len = (len + BC_MUL_UINT_DIGITS pf - 1) div BC_MUL_UINT_DIGITS pf"

text \<open>The decimal digits of \<open>v\<close> in \<open>m\<close> positions, most significant first.\<close>

definition to_digits :: "nat \<Rightarrow> nat \<Rightarrow> nat list" where
  "to_digits m v = map (\<lambda>k. v div 10 ^ (m - 1 - k) mod 10) [0..<m]"

text \<open>
  A well-formed number: its \<open>n_len + n_scale\<close> digits lie inside the memory that
  \<open>n_value\<close> points to, and the cells hold digit values 0 to 9. A number whose memory is
  exactly its digits is the special case the data model of the specification describes;
  the products that \<^verbatim>\<open>bc_multiply\<close> returns keep the digits that the result scale cuts off
  in memory, behind the digits of the number.
\<close>

definition bc_wf :: "bc_struct \<Rightarrow> bool" where
  "bc_wf num = (n_len num + n_scale num \<le> length (n_value num) \<and> list_all (\<lambda>d. d \<le> 9) (n_value num))"

text \<open>The magnitude of a number as an integer count of units of \<open>10 ^ - n_scale\<close>, and
  its value as a rational number.\<close>

definition bc_magnitude :: "bc_struct \<Rightarrow> nat" where
  "bc_magnitude num = digits_val (bc_digits num)"

definition bc_value :: "bc_struct \<Rightarrow> rat" where
  "bc_value num =
     (case n_sign num of PLUS \<Rightarrow> 1 | MINUS \<Rightarrow> - 1) * of_nat (bc_magnitude num) / 10 ^ n_scale num"

text \<open>A rational number with its fractional part cut after \<open>s\<close> decimal places, towards zero.\<close>

definition truncate_to_scale :: "nat \<Rightarrow> rat \<Rightarrow> rat" where
  "truncate_to_scale s x = sgn x * of_int \<lfloor>\<bar>x\<bar> * 10 ^ s\<rfloor> / 10 ^ s"

section \<open>Proofs\<close>

subsection \<open>Bitwise operations on natural numbers\<close>

lemma drop_take_bit_split:
  fixes x X :: nat
  assumes "x < 2 ^ k"
  shows "drop_bit k (x + 2 ^ k * X) = X" and "take_bit k (x + 2 ^ k * X) = x"
  using assms by (simp_all add: drop_bit_eq_div take_bit_eq_mod)

lemma and_split_nat:
  fixes x y X Y :: nat
  assumes "x < 2 ^ k" "y < 2 ^ k"
  shows "(x + 2 ^ k * X) AND (y + 2 ^ k * Y) = (x AND y) + 2 ^ k * (X AND Y)"
proof -
  let ?L = "(x + 2 ^ k * X) AND (y + 2 ^ k * Y)"
  have d: "drop_bit k ?L = X AND Y"
    using assms by (simp only: drop_bit_and drop_take_bit_split)
  have t: "take_bit k ?L = x AND y"
    using assms by (simp only: take_bit_and drop_take_bit_split)
  have "?L = push_bit k (drop_bit k ?L) + take_bit k ?L"
    by (simp only: bits_ident)
  also have "\<dots> = (X AND Y) * 2 ^ k + (x AND y)"
    by (simp only: d t push_bit_eq_mult)
  finally show ?thesis
    by (simp add: ac_simps)
qed

lemma or_split_nat:
  fixes x y X Y :: nat
  assumes "x < 2 ^ k" "y < 2 ^ k"
  shows "(x + 2 ^ k * X) OR (y + 2 ^ k * Y) = (x OR y) + 2 ^ k * (X OR Y)"
proof -
  let ?L = "(x + 2 ^ k * X) OR (y + 2 ^ k * Y)"
  have d: "drop_bit k ?L = X OR Y"
    using assms by (simp only: drop_bit_or drop_take_bit_split)
  have t: "take_bit k ?L = x OR y"
    using assms by (simp only: take_bit_or drop_take_bit_split)
  have "?L = push_bit k (drop_bit k ?L) + take_bit k ?L"
    by (simp only: bits_ident)
  also have "\<dots> = (X OR Y) * 2 ^ k + (x OR y)"
    by (simp only: d t push_bit_eq_mult)
  finally show ?thesis
    by (simp add: ac_simps)
qed

lemma push_bit_16_or:
  fixes A B :: nat
  assumes "B < 2 ^ 16"
  shows "push_bit 16 A OR B = B + 65536 * A"
  using or_split_nat[of 0 16 B A 0] assms by (simp add: push_bit_eq_mult mult.commute add.commute)

lemma and_limbs:
  "length xs = length ys \<Longrightarrow> (\<forall>x\<in>set xs. x < 2 ^ k) \<Longrightarrow> (\<forall>y\<in>set ys. y < 2 ^ k) \<Longrightarrow>
   limbs_val (2 ^ k) xs AND limbs_val (2 ^ k) ys = limbs_val (2 ^ k) (map2 (AND) xs ys)"
  by (induction xs ys rule: list_induct2) (simp_all add: and_split_nat)

lemma and_mask_self:
  fixes x :: nat
  assumes "x < 2 ^ n"
  shows "x AND (2 ^ n - 1) = x"
proof -
  have "x AND mask n = take_bit n x"
    by (simp add: take_bit_eq_mask)
  then show ?thesis
    using assms by (simp add: mask_eq_exp_minus_1 take_bit_nat_eq_self)
qed

lemma and_15: "(x::nat) \<le> 9 \<Longrightarrow> x AND 15 = x"
  using and_mask_self[of x 4] by simp

lemma and_255: "(x::nat) < 256 \<Longrightarrow> x AND 255 = x"
  using and_mask_self[of x 8] by simp

lemma and_65535: "(x::nat) < 65536 \<Longrightarrow> x AND 65535 = x"
  using and_mask_self[of x 16] by simp

subsection \<open>Bytes of a word\<close>

lemma le_bytes_Suc: "le_bytes (Suc n) x = (x mod 256) # le_bytes n (x div 256)"
proof -
  have "[0..<Suc n] = 0 # map Suc [0..<n]"
    by (simp add: upt_conv_Cons map_Suc_upt del: upt_Suc)
  then show ?thesis
    by (simp add: le_bytes_def comp_def div_mult2_eq del: upt_Suc)
qed

lemma le_bytes_0: "le_bytes 0 x = []"
  by (simp add: le_bytes_def)

lemma le_bytes_limbs_val:
  "\<forall>b\<in>set bs. b < 256 \<Longrightarrow> le_bytes (length bs) (limbs_val 256 bs) = bs"
  by (induction bs) (simp_all add: le_bytes_Suc le_bytes_0)

lemma BC_BSWAP_le_int:
  assumes "\<forall>b\<in>set bs. b < 256"
  shows "BC_BSWAP (length bs) (le_int (rev bs)) = le_int bs"
  using le_bytes_limbs_val[of "rev bs"] assms by (simp add: BC_BSWAP_def le_int_def)

lemma memcpy_load_swapped:
  assumes "\<forall>b\<in>set bs. b < 256"
  shows "(let tmp = memcpy_load order bs in if order \<noteq> BC_LITTLE_ENDIAN then BC_BSWAP (length bs) tmp else tmp)
         = limbs_val 256 bs"
  using BC_BSWAP_le_int[OF assms] by (cases order) (simp_all add: memcpy_load_def le_int_def)

subsection \<open>The bit trick\<close>

lemma parse64_core:
  fixes d0 d1 d2 d3 d4 d5 d6 d7 :: nat
  assumes d: "d0 \<le> 9" "d1 \<le> 9" "d2 \<le> 9" "d3 \<le> 9" "d4 \<le> 9" "d5 \<le> 9" "d6 \<le> 9" "d7 \<le> 9"
  shows "(let tmp = limbs_val 256 [d0, d1, d2, d3, d4, d5, d6, d7];
          lower_digits = drop_bit 8 (tmp AND 0x0f000f000f000f00);
          upper_digits = uint64_t ((tmp AND 0x000f000f000f000f) * 10);
          tmp = uint64_t (lower_digits + upper_digits);
          lower_digits = drop_bit 16 (tmp AND 0x00ff000000ff0000);
          upper_digits = uint64_t ((tmp AND 0x000000ff000000ff) * 100);
          tmp = uint64_t (lower_digits + upper_digits);
          lower_digits = drop_bit 32 (tmp AND 0x0000ffff00000000);
          upper_digits = uint64_t ((tmp AND 0x000000000000ffff) * 10000)
      in uint64_t (lower_digits + upper_digits))
     = d0 * 10000000 + d1 * 1000000 + d2 * 100000 + d3 * 10000 + d4 * 1000 + d5 * 100 + d6 * 10 + d7"
proof -
  define t1 where "t1 = limbs_val 256 [d0, d1, d2, d3, d4, d5, d6, d7]"
  define p0 p1 p2 p3 where "p0 = d1 + 10 * d0" and "p1 = d3 + 10 * d2" and "p2 = d5 + 10 * d4" and "p3 = d7 + 10 * d6"
  define q0 q1 where "q0 = p1 + 100 * p0" and "q1 = p3 + 100 * p2"
  have pb: "p0 \<le> 99" "p1 \<le> 99" "p2 \<le> 99" "p3 \<le> 99"
    using d by (simp_all add: p0_def p1_def p2_def p3_def)
  have qb: "q0 \<le> 9999" "q1 \<le> 9999"
    using pb by (simp_all add: q0_def q1_def)
  have a1: "t1 AND 0x0f000f000f000f00 = limbs_val 256 [0, d1, 0, d3, 0, d5, 0, d7]"
  proof -
    have "limbs_val (2 ^ 8) [d0, d1, d2, d3, d4, d5, d6, d7] AND limbs_val (2 ^ 8) [0, 15, 0, 15, 0, 15, 0, 15]
        = limbs_val (2 ^ 8) (map2 (AND) [d0, d1, d2, d3, d4, d5, d6, d7] [0, 15, 0, 15, 0, 15, 0, 15])"
      by (rule and_limbs) (use d in auto)
    then show ?thesis using d by (simp add: t1_def and_15)
  qed
  have b1: "t1 AND 0x000f000f000f000f = limbs_val 256 [d0, 0, d2, 0, d4, 0, d6, 0]"
  proof -
    have "limbs_val (2 ^ 8) [d0, d1, d2, d3, d4, d5, d6, d7] AND limbs_val (2 ^ 8) [15, 0, 15, 0, 15, 0, 15, 0]
        = limbs_val (2 ^ 8) (map2 (AND) [d0, d1, d2, d3, d4, d5, d6, d7] [15, 0, 15, 0, 15, 0, 15, 0])"
      by (rule and_limbs) (use d in auto)
    then show ?thesis using d by (simp add: t1_def and_15)
  qed
  define t2 where "t2 = limbs_val 65536 [p0, p1, p2, p3]"
  have s1: "uint64_t (drop_bit 8 (t1 AND 0x0f000f000f000f00) + uint64_t ((t1 AND 0x000f000f000f000f) * 10)) = t2"
    unfolding a1 b1 using d by (simp add: uint64_t_def drop_bit_eq_div t2_def p0_def p1_def p2_def p3_def)
  have a2: "t2 AND 0x00ff000000ff0000 = limbs_val 65536 [0, p1, 0, p3]"
  proof -
    have "limbs_val (2 ^ 16) [p0, p1, p2, p3] AND limbs_val (2 ^ 16) [0, 255, 0, 255]
        = limbs_val (2 ^ 16) (map2 (AND) [p0, p1, p2, p3] [0, 255, 0, 255])"
      by (rule and_limbs) (use pb in auto)
    then show ?thesis using pb by (simp add: t2_def and_255)
  qed
  have b2: "t2 AND 0x000000ff000000ff = limbs_val 65536 [p0, 0, p2, 0]"
  proof -
    have "limbs_val (2 ^ 16) [p0, p1, p2, p3] AND limbs_val (2 ^ 16) [255, 0, 255, 0]
        = limbs_val (2 ^ 16) (map2 (AND) [p0, p1, p2, p3] [255, 0, 255, 0])"
      by (rule and_limbs) (use pb in auto)
    then show ?thesis using pb by (simp add: t2_def and_255)
  qed
  define t3 where "t3 = limbs_val 4294967296 [q0, q1]"
  have s2: "uint64_t (drop_bit 16 (t2 AND 0x00ff000000ff0000) + uint64_t ((t2 AND 0x000000ff000000ff) * 100)) = t3"
    unfolding a2 b2 using pb by (simp add: uint64_t_def drop_bit_eq_div t3_def q0_def q1_def)
  have a3: "t3 AND 0x0000ffff00000000 = limbs_val 4294967296 [0, q1]"
  proof -
    have "limbs_val (2 ^ 32) [q0, q1] AND limbs_val (2 ^ 32) [0, 65535]
        = limbs_val (2 ^ 32) (map2 (AND) [q0, q1] [0, 65535])"
      by (rule and_limbs) (use qb in auto)
    then show ?thesis using qb by (simp add: t3_def and_65535)
  qed
  have b3: "t3 AND 0x000000000000ffff = limbs_val 4294967296 [q0, 0]"
  proof -
    have "limbs_val (2 ^ 32) [q0, q1] AND limbs_val (2 ^ 32) [65535, 0]
        = limbs_val (2 ^ 32) (map2 (AND) [q0, q1] [65535, 0])"
      by (rule and_limbs) (use qb in auto)
    then show ?thesis using qb by (simp add: t3_def and_65535)
  qed
  have s3: "uint64_t (drop_bit 32 (t3 AND 0x0000ffff00000000) + uint64_t ((t3 AND 0x000000000000ffff) * 10000)) = q1 + 10000 * q0"
    unfolding a3 b3 using qb by (simp add: uint64_t_def drop_bit_eq_div)
  show ?thesis
    unfolding Let_def t1_def[symmetric] s1 s2 s3
    by (simp add: q0_def q1_def p0_def p1_def p2_def p3_def)
qed


lemma parse32_core:
  fixes d0 d1 d2 d3 :: nat
  assumes d: "d0 \<le> 9" "d1 \<le> 9" "d2 \<le> 9" "d3 \<le> 9"
  shows "(let tmp = limbs_val 256 [d0, d1, d2, d3];
          lower_digits = drop_bit 8 (tmp AND 0x0f000f00);
          upper_digits = uint32_t ((tmp AND 0x000f000f) * 10);
          tmp = uint32_t (lower_digits + upper_digits);
          lower_digits = drop_bit 16 (tmp AND 0x00ff0000);
          upper_digits = uint32_t ((tmp AND 0x000000ff) * 100)
      in uint32_t (lower_digits + upper_digits))
     = d0 * 1000 + d1 * 100 + d2 * 10 + d3"
proof -
  define t1 where "t1 = limbs_val 256 [d0, d1, d2, d3]"
  define p0 p1 where "p0 = d1 + 10 * d0" and "p1 = d3 + 10 * d2"
  have pb: "p0 \<le> 99" "p1 \<le> 99"
    using d by (simp_all add: p0_def p1_def)
  have a1: "t1 AND 0x0f000f00 = limbs_val 256 [0, d1, 0, d3]"
  proof -
    have "limbs_val (2 ^ 8) [d0, d1, d2, d3] AND limbs_val (2 ^ 8) [0, 15, 0, 15]
        = limbs_val (2 ^ 8) (map2 (AND) [d0, d1, d2, d3] [0, 15, 0, 15])"
      by (rule and_limbs) (use d in auto)
    then show ?thesis using d by (simp add: t1_def and_15)
  qed
  have b1: "t1 AND 0x000f000f = limbs_val 256 [d0, 0, d2, 0]"
  proof -
    have "limbs_val (2 ^ 8) [d0, d1, d2, d3] AND limbs_val (2 ^ 8) [15, 0, 15, 0]
        = limbs_val (2 ^ 8) (map2 (AND) [d0, d1, d2, d3] [15, 0, 15, 0])"
      by (rule and_limbs) (use d in auto)
    then show ?thesis using d by (simp add: t1_def and_15)
  qed
  define t2 where "t2 = limbs_val 65536 [p0, p1]"
  have s1: "uint32_t (drop_bit 8 (t1 AND 0x0f000f00) + uint32_t ((t1 AND 0x000f000f) * 10)) = t2"
    unfolding a1 b1 using d by (simp add: uint32_t_def drop_bit_eq_div t2_def p0_def p1_def)
  have a2: "t2 AND 0x00ff0000 = limbs_val 65536 [0, p1]"
  proof -
    have "limbs_val (2 ^ 16) [p0, p1] AND limbs_val (2 ^ 16) [0, 255]
        = limbs_val (2 ^ 16) (map2 (AND) [p0, p1] [0, 255])"
      by (rule and_limbs) (use pb in auto)
    then show ?thesis using pb by (simp add: t2_def and_255)
  qed
  have b2: "t2 AND 0x000000ff = limbs_val 65536 [p0, 0]"
  proof -
    have "limbs_val (2 ^ 16) [p0, p1] AND limbs_val (2 ^ 16) [255, 0]
        = limbs_val (2 ^ 16) (map2 (AND) [p0, p1] [255, 0])"
      by (rule and_limbs) (use pb in auto)
    then show ?thesis using pb by (simp add: t2_def and_255)
  qed
  have s2: "uint32_t (drop_bit 16 (t2 AND 0x00ff0000) + uint32_t ((t2 AND 0x000000ff) * 100)) = p1 + 100 * p0"
    unfolding a2 b2 using pb by (simp add: uint32_t_def drop_bit_eq_div)
  show ?thesis
    unfolding Let_def t1_def[symmetric] s1 s2
    by (simp add: p0_def p1_def)
qed

subsection \<open>Packing: \<^verbatim>\<open>bc_parse_chunk_chars\<close> and \<^verbatim>\<open>bc_partial_convert_to_uint\<close>\<close>

lemma upt_4: "[0..<4] = [0, 1, 2, 3::nat]"
  by code_simp

lemma upt_8: "[0..<8] = [0, 1, 2, 3, 4, 5, 6, 7::nat]"
  by code_simp

lemma deref_digit:
  assumes "0 \<le> p" "p < int (length buf)" "\<forall>d\<in>set buf. d \<le> 9"
  shows "deref buf p \<le> 9"
  using assms by (simp add: deref_def)

lemma bc_parse_chunk_chars_64_value:
  assumes "0 \<le> str" "str + 7 < int (length buf)" "\<forall>d\<in>set buf. d \<le> 9"
  shows "bc_parse_chunk_chars_64 order buf str =
           deref buf str * 10000000 + deref buf (str + 1) * 1000000 + deref buf (str + 2) * 100000
           + deref buf (str + 3) * 10000 + deref buf (str + 4) * 1000 + deref buf (str + 5) * 100
           + deref buf (str + 6) * 10 + deref buf (str + 7)"
proof -
  let ?bs = "chunk_bytes buf str 8"
  have bs: "?bs = [deref buf str, deref buf (str + 1), deref buf (str + 2), deref buf (str + 3),
                   deref buf (str + 4), deref buf (str + 5), deref buf (str + 6), deref buf (str + 7)]"
    by (simp add: chunk_bytes_def upt_8)
  have dg: "deref buf (str + int k) \<le> 9" if "k < 8" for k
    using that assms by (intro deref_digit) auto
  have d: "deref buf str \<le> 9" "deref buf (str + 1) \<le> 9" "deref buf (str + 2) \<le> 9"
    "deref buf (str + 3) \<le> 9" "deref buf (str + 4) \<le> 9" "deref buf (str + 5) \<le> 9"
    "deref buf (str + 6) \<le> 9" "deref buf (str + 7) \<le> 9"
    using dg[of 0] dg[of 1] dg[of 2] dg[of 3] dg[of 4] dg[of 5] dg[of 6] dg[of 7] by simp_all
  have small: "\<forall>b\<in>set ?bs. b < 256"
    unfolding bs using d by simp
  have len: "length ?bs = 8"
    by (simp add: bs)
  have ld: "(let tmp = memcpy_load order ?bs in if order \<noteq> BC_LITTLE_ENDIAN then BC_BSWAP 8 tmp else tmp)
            = limbs_val 256 ?bs"
    using memcpy_load_swapped[OF small, of order] by (simp only: len)
  have "bc_parse_chunk_chars_64 order buf str =
     (let tmp = limbs_val 256 ?bs;
          lower_digits = drop_bit 8 (tmp AND 0x0f000f000f000f00);
          upper_digits = uint64_t ((tmp AND 0x000f000f000f000f) * 10);
          tmp = uint64_t (lower_digits + upper_digits);
          lower_digits = drop_bit 16 (tmp AND 0x00ff000000ff0000);
          upper_digits = uint64_t ((tmp AND 0x000000ff000000ff) * 100);
          tmp = uint64_t (lower_digits + upper_digits);
          lower_digits = drop_bit 32 (tmp AND 0x0000ffff00000000);
          upper_digits = uint64_t ((tmp AND 0x000000000000ffff) * 10000)
      in uint64_t (lower_digits + upper_digits))"
    unfolding bc_parse_chunk_chars_64_def using ld by (simp only: Let_def)
  also have "\<dots> = deref buf str * 10000000 + deref buf (str + 1) * 1000000 + deref buf (str + 2) * 100000
           + deref buf (str + 3) * 10000 + deref buf (str + 4) * 1000 + deref buf (str + 5) * 100
           + deref buf (str + 6) * 10 + deref buf (str + 7)"
    unfolding bs by (rule parse64_core) (rule d)+
  finally show ?thesis .
qed

lemma bc_parse_chunk_chars_32_value:
  assumes "0 \<le> str" "str + 3 < int (length buf)" "\<forall>d\<in>set buf. d \<le> 9"
  shows "bc_parse_chunk_chars_32 order buf str =
           deref buf str * 1000 + deref buf (str + 1) * 100 + deref buf (str + 2) * 10
           + deref buf (str + 3)"
proof -
  let ?bs = "chunk_bytes buf str 4"
  have bs: "?bs = [deref buf str, deref buf (str + 1), deref buf (str + 2), deref buf (str + 3)]"
    by (simp add: chunk_bytes_def upt_4)
  have dg: "deref buf (str + int k) \<le> 9" if "k < 4" for k
    using that assms by (intro deref_digit) auto
  have d: "deref buf str \<le> 9" "deref buf (str + 1) \<le> 9" "deref buf (str + 2) \<le> 9"
    "deref buf (str + 3) \<le> 9"
    using dg[of 0] dg[of 1] dg[of 2] dg[of 3] by simp_all
  have small: "\<forall>b\<in>set ?bs. b < 256"
    unfolding bs using d by simp
  have len: "length ?bs = 4"
    by (simp add: bs)
  have ld: "(let tmp = memcpy_load order ?bs in if order \<noteq> BC_LITTLE_ENDIAN then BC_BSWAP 4 tmp else tmp)
            = limbs_val 256 ?bs"
    using memcpy_load_swapped[OF small, of order] by (simp only: len)
  have "bc_parse_chunk_chars_32 order buf str =
     (let tmp = limbs_val 256 ?bs;
          lower_digits = drop_bit 8 (tmp AND 0x0f000f00);
          upper_digits = uint32_t ((tmp AND 0x000f000f) * 10);
          tmp = uint32_t (lower_digits + upper_digits);
          lower_digits = drop_bit 16 (tmp AND 0x00ff0000);
          upper_digits = uint32_t ((tmp AND 0x000000ff) * 100)
      in uint32_t (lower_digits + upper_digits))"
    unfolding bc_parse_chunk_chars_32_def using ld by (simp only: Let_def)
  also have "\<dots> = deref buf str * 1000 + deref buf (str + 1) * 100 + deref buf (str + 2) * 10
           + deref buf (str + 3)"
    unfolding bs by (rule parse32_core) (rule d)+
  finally show ?thesis .
qed

subsection \<open>Values of limb arrays\<close>

lemma limbs_val_append:
  "limbs_val b (xs @ ys) = limbs_val b xs + b ^ length xs * limbs_val b ys"
  by (induction xs) (simp_all add: algebra_simps)

lemma limbs_val_bound:
  "0 < b \<Longrightarrow> \<forall>x\<in>set xs. x < b \<Longrightarrow> limbs_val b xs < b ^ length xs"
proof (induction xs)
  case Nil
  then show ?case by simp
next
  case (Cons x xs)
  then have "limbs_val b xs + 1 \<le> b ^ length xs"
    by simp
  then have "b * (limbs_val b xs + 1) \<le> b * b ^ length xs"
    by (rule mult_le_mono2)
  moreover have "x < b"
    using Cons.prems by simp
  ultimately show ?case
    by (simp add: algebra_simps)
qed

lemma limbs_val_take_drop:
  "limbs_val b xs = limbs_val b (take k xs) + b ^ min k (length xs) * limbs_val b (drop k xs)"
  using limbs_val_append[of b "take k xs" "drop k xs"] by (simp add: min.commute)

lemma limbs_val_update:
  "k < length xs \<Longrightarrow> limbs_val b (xs[k := v]) + xs ! k * b ^ k = limbs_val b xs + v * b ^ k"
proof (induction xs arbitrary: k)
  case Nil
  then show ?case by simp
next
  case (Cons x xs)
  show ?case
  proof (cases k)
    case 0
    then show ?thesis by simp
  next
    case (Suc j)
    with Cons.prems have "j < length xs" by simp
    from Cons.IH[OF this] have "b * (limbs_val b (xs[j := v]) + xs ! j * b ^ j) = b * (limbs_val b xs + v * b ^ j)"
      by simp
    then show ?thesis
      using Suc by (simp add: algebra_simps)
  qed
qed

lemma limbs_val_add_at:
  "k < length xs \<Longrightarrow> limbs_val b (xs[k := xs ! k + d]) = limbs_val b xs + d * b ^ k"
  using limbs_val_update[of k xs b "xs ! k + d"] by (simp add: algebra_simps)

lemma limbs_val_replicate_0: "limbs_val b (replicate n 0) = 0"
  by (induction n) simp_all

lemma limbs_val_map_upt:
  "limbs_val b (map f [0..<n]) = (\<Sum>i<n. f i * b ^ i)"
proof (induction n)
  case 0
  then show ?case by simp
next
  case (Suc n)
  then show ?case
    by (simp add: limbs_val_append)
qed

lemma digits_val_append:
  "digits_val (xs @ ys) = digits_val xs * 10 ^ length ys + digits_val ys"
  by (simp add: digits_val_def limbs_val_append)

lemma digits_val_bound:
  "\<forall>d\<in>set ds. d \<le> 9 \<Longrightarrow> digits_val ds < 10 ^ length ds"
proof -
  assume "\<forall>d\<in>set ds. d \<le> 9"
  then have "\<forall>x\<in>set (rev ds). x < 10"
    by fastforce
  then have "limbs_val 10 (rev ds) < 10 ^ length (rev ds)"
    by (intro limbs_val_bound) simp_all
  then show ?thesis
    by (simp add: digits_val_def)
qed

subsection \<open>Facts about the platform constants\<close>

lemma OVERFLOW_eq: "BC_MUL_UINT_OVERFLOW pf = 10 ^ BC_MUL_UINT_DIGITS pf"
  by (simp add: BC_MUL_UINT_OVERFLOW_def BC_MUL_UINT_DIGITS_def split: size_t_width.splits)

lemma DIGITS_pos: "0 < BC_MUL_UINT_DIGITS pf"
  by (simp add: BC_MUL_UINT_DIGITS_def split: size_t_width.splits)

lemma OVERFLOW_lt_UINT: "10 ^ BC_MUL_UINT_DIGITS pf < (2::nat) ^ BC_UINT_BITS pf"
  by (simp add: BC_MUL_UINT_DIGITS_def BC_UINT_BITS_def split: size_t_width.splits)

lemma OVERFLOW_sq_le_UINT_MAX:
  "(10::nat) ^ BC_MUL_UINT_DIGITS pf * 10 ^ BC_MUL_UINT_DIGITS pf \<le> BC_UINT_MAX pf"
  by (simp add: BC_MUL_UINT_DIGITS_def BC_UINT_BITS_def BC_UINT_MAX_def split: size_t_width.splits)

lemma BC_UINT_T_id: "x \<le> BC_UINT_MAX pf \<Longrightarrow> BC_UINT_T pf x = x"
proof -
  assume "x \<le> BC_UINT_MAX pf"
  moreover have "(0::nat) < 2 ^ BC_UINT_BITS pf"
    by simp
  ultimately have "x < 2 ^ BC_UINT_BITS pf"
    unfolding BC_UINT_MAX_def by linarith
  then show ?thesis
    by (simp add: BC_UINT_T_def)
qed

lemma pow10_le_UINT_MAX:
  assumes "i \<le> BC_MUL_UINT_DIGITS pf"
  shows "(10::nat) ^ i \<le> BC_UINT_MAX pf"
proof -
  have "(10::nat) ^ i \<le> 10 ^ BC_MUL_UINT_DIGITS pf"
    using assms by (simp add: power_increasing)
  also have "\<dots> \<le> BC_UINT_MAX pf"
    using OVERFLOW_lt_UINT[of pf] by (simp add: BC_UINT_MAX_def)
  finally show ?thesis .
qed

subsection \<open>The positional loop\<close>

lemma sum_digits_bound:
  fixes f :: "nat \<Rightarrow> nat"
  assumes "\<forall>k<n. f k \<le> 9"
  shows "(\<Sum>k<n. f k * 10 ^ k) < 10 ^ n"
  using assms
proof (induction n)
  case 0
  then show ?case by simp
next
  case (Suc n)
  then have "(\<Sum>k<n. f k * 10 ^ k) < 10 ^ n" and "f n \<le> 9"
    by simp_all
  then have "(\<Sum>k<n. f k * 10 ^ k) < 10 ^ n" and "f n * 10 ^ n \<le> 9 * 10 ^ n"
    by (simp_all add: mult_le_mono1)
  then have "(\<Sum>k<n. f k * 10 ^ k) + f n * 10 ^ n < 10 ^ n + 9 * 10 ^ n"
    by (rule add_less_le_mono)
  then show ?case by simp
qed

lemma bc_partial_convert_loop_sum:
  assumes "len \<le> BC_MUL_UINT_DIGITS pf"
    and "\<forall>k<len. deref buf (n0 - int k) \<le> 9"
  shows "i \<le> len \<Longrightarrow> num = (\<Sum>k<i. deref buf (n0 - int k) * 10 ^ k) \<Longrightarrow>
         bc_partial_convert_loop pf buf (n0 - int i) len i num (10 ^ i)
           = (\<Sum>k<len. deref buf (n0 - int k) * 10 ^ k)"
proof (induction "len - i" arbitrary: i num)
  case 0
  then show ?case
    by (simp add: bc_partial_convert_loop.simps)
next
  case (Suc m)
  then have lt: "i < len" by simp
  let ?f = "\<lambda>k. deref buf (n0 - int k) * 10 ^ k"
  have b1: "(\<Sum>k<Suc i. ?f k) < 10 ^ Suc i"
    using assms(2) lt by (intro sum_digits_bound) auto
  have p: "(10::nat) ^ Suc i \<le> BC_UINT_MAX pf"
    using lt assms(1) by (intro pow10_le_UINT_MAX) simp
  have t: "?f i \<le> BC_UINT_MAX pf"
    using b1 p by simp
  have s: "num + ?f i \<le> BC_UINT_MAX pf"
    using b1 p Suc.prems(2) by simp
  have step: "bc_partial_convert_loop pf buf (n0 - int i) len i num (10 ^ i)
        = bc_partial_convert_loop pf buf (n0 - int (Suc i)) len (Suc i) (num + ?f i) (10 ^ Suc i)"
    using lt t s p
    by (subst bc_partial_convert_loop.simps) (simp add: BC_UINT_T_id BASE_def algebra_simps)
  have "bc_partial_convert_loop pf buf (n0 - int (Suc i)) len (Suc i) (num + ?f i) (10 ^ Suc i)
        = (\<Sum>k<len. ?f k)"
    using Suc.hyps(2) lt Suc.prems(2) by (intro Suc.hyps(1)) simp_all
  with step show ?case by simp
qed

lemma sum_lessThan_4: "(\<Sum>i<(4::nat). f i) = f 0 + f 1 + f 2 + (f 3 :: nat)"
  by (simp add: eval_nat_numeral)

lemma sum_lessThan_8: "(\<Sum>i<(8::nat). f i) = f 0 + f 1 + f 2 + f 3 + f 4 + f 5 + f 6 + (f 7 :: nat)"
  by (simp add: eval_nat_numeral)

lemma bc_parse_chunk_chars_value:
  assumes "int (BC_MUL_UINT_DIGITS pf) - 1 \<le> n" "n < int (length buf)" "\<forall>d\<in>set buf. d \<le> 9"
  shows "bc_parse_chunk_chars pf buf (n - int (BC_MUL_UINT_DIGITS pf) + 1)
           = (\<Sum>i<BC_MUL_UINT_DIGITS pf. deref buf (n - int i) * 10 ^ i)"
proof (cases "sizeof_size_t pf")
  case SIZEOF_SIZE_T_4
  then have W: "BC_MUL_UINT_DIGITS pf = 4"
    by (simp add: BC_MUL_UINT_DIGITS_def)
  have "bc_parse_chunk_chars_32 (endianness pf) buf (n - 3) =
           deref buf (n - 3) * 1000 + deref buf (n - 3 + 1) * 100 + deref buf (n - 3 + 2) * 10
           + deref buf (n - 3 + 3)"
    using assms W by (intro bc_parse_chunk_chars_32_value) simp_all
  then show ?thesis
    using SIZEOF_SIZE_T_4 by (simp add: bc_parse_chunk_chars_def W sum_lessThan_4)
next
  case SIZEOF_SIZE_T_8
  then have W: "BC_MUL_UINT_DIGITS pf = 8"
    by (simp add: BC_MUL_UINT_DIGITS_def)
  have "bc_parse_chunk_chars_64 (endianness pf) buf (n - 7) =
           deref buf (n - 7) * 10000000 + deref buf (n - 7 + 1) * 1000000 + deref buf (n - 7 + 2) * 100000
           + deref buf (n - 7 + 3) * 10000 + deref buf (n - 7 + 4) * 1000 + deref buf (n - 7 + 5) * 100
           + deref buf (n - 7 + 6) * 10 + deref buf (n - 7 + 7)"
    using assms W by (intro bc_parse_chunk_chars_64_value) simp_all
  then show ?thesis
    using SIZEOF_SIZE_T_8 by (simp add: bc_parse_chunk_chars_def W sum_lessThan_8)
qed

lemma bc_partial_convert_loop_value:
  assumes "len \<le> BC_MUL_UINT_DIGITS pf" "int len - 1 \<le> n" "n < int (length buf)"
    "\<forall>d\<in>set buf. d \<le> 9"
  shows "bc_partial_convert_loop pf buf n len 0 0 1 = (\<Sum>i<len. deref buf (n - int i) * 10 ^ i)"
proof -
  have "\<forall>k<len. deref buf (n - int k) \<le> 9"
    using assms by (auto intro!: deref_digit)
  from bc_partial_convert_loop_sum[OF assms(1) this, of 0 0] show ?thesis
    by simp
qed

lemma bc_partial_convert_to_uint_sum:
  assumes "len \<le> BC_MUL_UINT_DIGITS pf" "int len - 1 \<le> n" "n < int (length buf)"
    "\<forall>d\<in>set buf. d \<le> 9"
  shows "bc_partial_convert_to_uint pf buf n len = (\<Sum>i<len. deref buf (n - int i) * 10 ^ i)"
proof (cases "len = BC_MUL_UINT_DIGITS pf")
  case True
  then show ?thesis
    using bc_parse_chunk_chars_value[of pf n buf] assms
    by (simp add: bc_partial_convert_to_uint_def)
next
  case False
  then show ?thesis
    using bc_partial_convert_loop_value[OF assms]
    by (simp add: bc_partial_convert_to_uint_def)
qed

text \<open>
  C6. For a buffer of digits 0 to 9 and a count \<open>len\<close> of at most \<open>W\<close> cells ending at
  offset \<open>n\<close> inside the buffer, \<^verbatim>\<open>bc_partial_convert_to_uint\<close> returns the base-10 value
  of these cells, \<open>\<Sum>i<len. digit (n - i) * 10 ^ i\<close>; so does the positional loop on
  its own; and when \<open>len = W\<close> the bit trick of \<^verbatim>\<open>bc_parse_chunk_chars\<close> returns what the
  loop returns, on either byte order and for either width (the platform is arbitrary).
\<close>

theorem bc_partial_convert_to_uint_value:
  assumes "len \<le> BC_MUL_UINT_DIGITS pf" "int len - 1 \<le> n" "n < int (length buf)"
    "\<forall>d\<in>set buf. d \<le> 9"
  shows "bc_partial_convert_to_uint pf buf n len = (\<Sum>i<len. deref buf (n - int i) * 10 ^ i)
       \<and> bc_partial_convert_loop pf buf n len 0 0 1 = (\<Sum>i<len. deref buf (n - int i) * 10 ^ i)
       \<and> (len = BC_MUL_UINT_DIGITS pf \<longrightarrow>
            bc_parse_chunk_chars pf buf (n - int (BC_MUL_UINT_DIGITS pf) + 1)
              = bc_partial_convert_loop pf buf n len 0 0 1)"
  using bc_partial_convert_to_uint_sum[OF assms] bc_partial_convert_loop_value[OF assms]
    bc_parse_chunk_chars_value[of pf n buf] assms
  by auto

theorem bc_partial_convert_to_uint_value_witness:
  "bc_partial_convert_to_uint (Platform SIZEOF_SIZE_T_8 BC_BIG_ENDIAN) [1, 2, 3, 4, 5, 6, 7, 8] 7 8 = 12345678
   \<and> bc_partial_convert_loop (Platform SIZEOF_SIZE_T_8 BC_BIG_ENDIAN) [1, 2, 3, 4, 5, 6, 7, 8] 7 8 0 0 1 = 12345678
   \<and> bc_parse_chunk_chars (Platform SIZEOF_SIZE_T_8 BC_BIG_ENDIAN) [1, 2, 3, 4, 5, 6, 7, 8] 0 = 12345678"
proof -
  let ?pf = "Platform SIZEOF_SIZE_T_8 BC_BIG_ENDIAN"
  let ?buf = "[1, 2, 3, 4, 5, 6, 7, 8::nat]"
  have W: "BC_MUL_UINT_DIGITS ?pf = 8"
    by (simp add: BC_MUL_UINT_DIGITS_def)
  have h1: "8 \<le> BC_MUL_UINT_DIGITS ?pf"
    by (simp add: W)
  have h2: "int 8 - 1 \<le> 7" and h3: "7 < int (length ?buf)" and h4: "\<forall>d\<in>set ?buf. d \<le> 9"
    by simp_all
  have s: "(\<Sum>i<8. deref ?buf (7 - int i) * 10 ^ i) = 12345678"
    by (simp add: sum_lessThan_8 deref_def)
  from bc_partial_convert_to_uint_value[OF h1 h2 h3 h4] show ?thesis
    unfolding s W by simp
qed

subsection \<open>The table and \<^verbatim>\<open>bc_write_bcd_representation\<close>\<close>

lemma upt_10: "[0..<10] = [0, 1, 2, 3, 4, 5, 6, 7, 8, 9::nat]"
  by code_simp

lemma LUT_ITERATE_map: "LUT_ITERATE f A = map (f A) [0..<10]"
  by (simp add: LUT_ITERATE_def upt_10)

lemma LUT_rows: "LUT order = concat (map (\<lambda>A. map (BC_ENCODE_LUT order A) [0..<10]) [0..<10])"
  by (simp add: LUT_def LUT_ITERATE_map) (simp add: upt_10)

lemma length_concat_rows:
  "length (concat (map (\<lambda>A. map (g A) [0..<n]) [0..<m])) = m * n"
  by (induction m) simp_all

lemma nth_concat_rows:
  "a < m \<Longrightarrow> b < n \<Longrightarrow> concat (map (\<lambda>A. map (g A) [0..<n]) [0..<m]) ! (a * n + b) = g a b"
proof (induction m)
  case 0
  then show ?case by simp
next
  case (Suc m)
  show ?case
  proof (cases "a < m")
    case True
    then have "Suc a \<le> m" by simp
    then have "Suc a * n \<le> m * n" by (rule mult_le_mono1)
    with Suc.prems(2) have "a * n + b < m * n" by simp
    with Suc.IH[OF True Suc.prems(2)] show ?thesis
      by (simp add: nth_append length_concat_rows)
  next
    case False
    with Suc.prems(1) have "a = m" by simp
    with Suc.prems(2) show ?thesis
      by (simp add: nth_append length_concat_rows)
  qed
qed

lemma LUT_nth:
  assumes "i < 100"
  shows "LUT order ! i = BC_ENCODE_LUT order (i div 10) (i mod 10)"
proof -
  have "i div 10 < 10" and "i mod 10 < 10"
    using assms by simp_all
  from nth_concat_rows[OF this, of "BC_ENCODE_LUT order"] show ?thesis
    by (simp add: LUT_rows)
qed

lemma or_nibbles:
  fixes a b :: nat
  assumes "a \<le> 9"
  shows "a OR push_bit 4 b = a + 16 * b"
  using or_split_nat[of a 4 0 0 b] assms by (simp add: push_bit_eq_mult mult.commute)

lemma bc_expand_lut_nibbles:
  fixes a b :: nat
  assumes "a \<le> 9" "b \<le> 9"
  shows "bc_expand_lut (a + 16 * b) = a + 256 * b"
proof -
  have lo: "(a + 16 * b) AND 0x0f = a"
    using and_split_nat[of a 4 15 b 0] assms by (simp add: and_15)
  have hi: "(a + 16 * b) AND 0xf0 = 16 * b"
    using and_split_nat[of a 4 0 b 15] assms by (simp add: and_15)
  have "a OR push_bit 4 (16 * b) = a + 256 * b"
    using or_split_nat[of a 8 0 0 b] assms by (simp add: push_bit_eq_mult mult.commute)
  moreover have "a + 256 * b < 2 ^ 16"
    using assms by simp
  ultimately show ?thesis
    by (simp add: bc_expand_lut_def lo hi)
qed

lemma bc_expand_lut_little:
  assumes "i < 100"
  shows "bc_expand_lut (LUT BC_LITTLE_ENDIAN ! i) = i div 10 + 256 * (i mod 10)"
proof -
  have d: "i div 10 \<le> 9" "i mod 10 \<le> 9"
    using assms by simp_all
  show ?thesis
    using assms d by (simp add: LUT_nth BC_ENCODE_LUT_def or_nibbles bc_expand_lut_nibbles)
qed

lemma bc_expand_lut_big:
  assumes "i < 100"
  shows "bc_expand_lut (LUT BC_BIG_ENDIAN ! i) = i mod 10 + 256 * (i div 10)"
proof -
  have d: "i div 10 \<le> 9" "i mod 10 \<le> 9"
    using assms by simp_all
  show ?thesis
    using assms d by (simp add: LUT_nth BC_ENCODE_LUT_def or_nibbles bc_expand_lut_nibbles)
qed

lemma le_bytes_4:
  assumes "a \<le> 9" "b \<le> 9" "c \<le> 9" "d \<le> 9"
  shows "le_bytes 4 (limbs_val 256 [a, b, c, d]) = [a, b, c, d]"
proof -
  have "length [a, b, c, d] = 4"
    by simp
  from le_bytes_limbs_val[of "[a, b, c, d]", unfolded this] assms show ?thesis
    by simp
qed

lemma bcd_digits:
  fixes v :: nat
  shows "v div 100 div 10 = v div 1000"
    and "v mod 100 div 10 = v div 10 mod 10"
    and "v mod 100 mod 10 = v mod 10"
proof -
  show "v div 100 div 10 = v div 1000"
    by (simp add: div_mult2_eq[symmetric])
  show "v mod 100 div 10 = v div 10 mod 10"
    using mod_mult2_eq[of v 10 10] by simp
  show "v mod 100 mod 10 = v mod 10"
    by (simp add: mod_mod_cancel)
qed

lemma memcpy_store_4:
  "memcpy_store order str 4 x =
     (case order of
        BC_LITTLE_ENDIAN \<Rightarrow> zip [str, str + 1, str + 2, str + 3] (le_bytes 4 x)
      | BC_BIG_ENDIAN \<Rightarrow> zip [str, str + 1, str + 2, str + 3] (rev (le_bytes 4 x)))"
  by (simp add: memcpy_store_def upt_4 split: byte_order.splits)

text \<open>
  C10. For a value of at most 9999, \<^verbatim>\<open>bc_write_bcd_representation\<close> makes exactly four
  stores, at \<open>str\<close> to \<open>str + 3\<close>: the four decimal digits of the value, most significant
  first (so a value below 1000 is padded with zeros on the left), each a digit value 0 to
  9 and not a character code; the stores are the same for the two byte orders.
\<close>

theorem bc_write_bcd_representation_digits:
  assumes "val \<le> 9999"
  shows "bc_write_bcd_representation order val str =
           [(str, val div 1000), (str + 1, val div 100 mod 10),
            (str + 2, val div 10 mod 10), (str + 3, val mod 10)]
         \<and> val div 1000 \<le> 9"
proof -
  define u l where "u = val div 100" and "l = val mod 100"
  have ub: "u < 100" and lb: "l < 100"
    using assms by (simp_all add: u_def l_def)
  have dig: "u div 10 \<le> 9" "u mod 10 \<le> 9" "l div 10 \<le> 9" "l mod 10 \<le> 9"
    using ub lb by simp_all
  have main: "bc_write_bcd_representation order val str =
           [(str, u div 10), (str + 1, u mod 10), (str + 2, l div 10), (str + 3, l mod 10)]"
  proof (cases order)
    case BC_LITTLE_ENDIAN
    have small: "u div 10 + 256 * (u mod 10) < 2 ^ 16"
      using dig by simp
    have "push_bit 16 (l div 10 + 256 * (l mod 10)) OR (u div 10 + 256 * (u mod 10))
            = limbs_val 256 [u div 10, u mod 10, l div 10, l mod 10]"
      using push_bit_16_or[OF small] by simp
    moreover have "limbs_val 256 [u div 10, u mod 10, l div 10, l mod 10] < 2 ^ 32"
      using dig by simp
    ultimately show ?thesis
      using BC_LITTLE_ENDIAN ub lb le_bytes_4[OF dig]
      by (simp add: bc_write_bcd_representation_def Let_def u_def[symmetric] l_def[symmetric]
          bc_expand_lut_little uint32_t_def memcpy_store_4)
  next
    case BC_BIG_ENDIAN
    have small: "l mod 10 + 256 * (l div 10) < 2 ^ 16"
      using dig by simp
    have "push_bit 16 (u mod 10 + 256 * (u div 10)) OR (l mod 10 + 256 * (l div 10))
            = limbs_val 256 [l mod 10, l div 10, u mod 10, u div 10]"
      using push_bit_16_or[OF small] by simp
    moreover have "limbs_val 256 [l mod 10, l div 10, u mod 10, u div 10] < 2 ^ 32"
      using dig by simp
    ultimately show ?thesis
      using BC_BIG_ENDIAN ub lb le_bytes_4[OF dig(4) dig(3) dig(2) dig(1)]
      by (simp add: bc_write_bcd_representation_def Let_def u_def[symmetric] l_def[symmetric]
          bc_expand_lut_big uint32_t_def memcpy_store_4)
  qed
  have "val div 1000 \<le> 9999 div 1000"
    using assms by (rule div_le_mono)
  then have "val div 1000 \<le> 9"
    by simp
  with main show ?thesis
    by (simp add: u_def l_def bcd_digits)
qed

theorem bc_write_bcd_representation_digits_witness:
  "(1234::nat) \<le> 9999 \<and> bc_write_bcd_representation BC_BIG_ENDIAN 1234 10 = [(10, 1), (11, 2), (12, 3), (13, 4)]
   \<and> bc_write_bcd_representation BC_LITTLE_ENDIAN 7 0 = [(0, 0), (1, 0), (2, 0), (3, 7)]"
  using bc_write_bcd_representation_digits[of 1234 BC_BIG_ENDIAN 10]
    bc_write_bcd_representation_digits[of 7 BC_LITTLE_ENDIAN 0]
  by simp

subsection \<open>Carry normalisation\<close>

lemma OVERFLOW_pos: "0 < BC_MUL_UINT_OVERFLOW pf"
  by (simp add: OVERFLOW_eq)

lemma div_small_plus_mult:
  fixes x c y :: nat
  assumes "x < c"
  shows "(x + c * y) div c = y"
proof -
  have "c \<noteq> 0" using assms by auto
  then have "(x + c * y) div c = y + x div c"
    by (rule div_mult_self2)
  with assms show ?thesis by simp
qed

lemma limbs_val_last:
  assumes "length r = n" "1 \<le> n" "\<forall>k<n - 1. r ! k < b" "0 < b"
  shows "limbs_val b r div b ^ (n - 1) = r ! (n - 1)"
proof -
  have "\<forall>x\<in>set (take (n - 1) r). x < b"
    using assms by (auto simp: in_set_conv_nth)
  then have lo: "limbs_val b (take (n - 1) r) < b ^ (n - 1)"
    using limbs_val_bound[OF assms(4), of "take (n - 1) r"] assms(1,2) by simp
  have "drop (n - 1) r = [r ! (n - 1)]"
    using assms(1,2) by (cases r rule: rev_cases) (auto simp: nth_append)
  then have "limbs_val b r = limbs_val b (take (n - 1) r) + b ^ (n - 1) * r ! (n - 1)"
    using limbs_val_take_drop[of b r "n - 1"] assms(1,2) by simp
  with lo show ?thesis
    by (simp only: div_small_plus_mult)
qed

lemma bc_digits_adjustment_loop_inv:
  "length xs = n \<Longrightarrow> i < n \<Longrightarrow> \<not> bc_digits_adjustment_wraps pf xs n i \<Longrightarrow>
     length (bc_digits_adjustment_loop pf xs n i) = n
     \<and> limbs_val (BC_MUL_UINT_OVERFLOW pf) (bc_digits_adjustment_loop pf xs n i)
         = limbs_val (BC_MUL_UINT_OVERFLOW pf) xs
     \<and> (\<forall>k<i. bc_digits_adjustment_loop pf xs n i ! k = xs ! k)
     \<and> (\<forall>k. i \<le> k \<and> k < n - 1 \<longrightarrow> bc_digits_adjustment_loop pf xs n i ! k < BC_MUL_UINT_OVERFLOW pf)"
proof (induction "n - 1 - i" arbitrary: xs i)
  case 0
  then have "\<not> i < n - 1" by simp
  then show ?case
    using 0 by (simp add: bc_digits_adjustment_loop.simps)
next
  case (Suc m)
  let ?B = "BC_MUL_UINT_OVERFLOW pf"
  have lt: "i < n - 1" using Suc.hyps(2) by simp
  define q where "q = xs ! i div ?B"
  define xs1 where "xs1 = xs[i + 1 := xs ! (i + 1) + q]"
  define xs2 where "xs2 = xs1[i := xs ! i mod ?B]"
  have nw: "xs ! (i + 1) + q \<le> BC_UINT_MAX pf"
    using Suc.prems(3) lt
    by (subst (asm) bc_digits_adjustment_wraps.simps) (simp add: q_def Let_def)
  have wrapfree: "BC_UINT_T pf (xs ! (i + 1) + q) = xs ! (i + 1) + q"
    using nw by (rule BC_UINT_T_id)
  have xs1i: "xs1 ! i = xs ! i"
    using Suc.prems(1) lt by (simp add: xs1_def)
  have step: "bc_digits_adjustment_loop pf xs n i = bc_digits_adjustment_loop pf xs2 n (i + 1)"
    using lt wrapfree xs1i
    by (subst bc_digits_adjustment_loop.simps) (simp add: Let_def q_def xs1_def xs2_def)
  have nw2: "\<not> bc_digits_adjustment_wraps pf xs2 n (i + 1)"
    using Suc.prems(3) lt wrapfree xs1i
    by (subst (asm) bc_digits_adjustment_wraps.simps) (simp add: Let_def q_def xs1_def xs2_def)
  have len2: "length xs2 = n"
    using Suc.prems(1) by (simp add: xs1_def xs2_def)
  have v1: "limbs_val ?B xs1 = limbs_val ?B xs + q * ?B ^ (i + 1)"
    unfolding xs1_def using Suc.prems(1) lt by (intro limbs_val_add_at) simp
  have "limbs_val ?B xs2 + xs1 ! i * ?B ^ i = limbs_val ?B xs1 + (xs ! i mod ?B) * ?B ^ i"
    unfolding xs2_def using Suc.prems(1) lt by (intro limbs_val_update) (simp add: xs1_def)
  then have "limbs_val ?B xs2 + xs ! i * ?B ^ i
               = limbs_val ?B xs + (q * ?B + xs ! i mod ?B) * ?B ^ i"
    by (simp add: v1 xs1i algebra_simps)
  then have v2: "limbs_val ?B xs2 = limbs_val ?B xs"
    by (simp add: q_def)
  have IH: "length (bc_digits_adjustment_loop pf xs2 n (i + 1)) = n
     \<and> limbs_val ?B (bc_digits_adjustment_loop pf xs2 n (i + 1)) = limbs_val ?B xs2
     \<and> (\<forall>k<i + 1. bc_digits_adjustment_loop pf xs2 n (i + 1) ! k = xs2 ! k)
     \<and> (\<forall>k. i + 1 \<le> k \<and> k < n - 1 \<longrightarrow> bc_digits_adjustment_loop pf xs2 n (i + 1) ! k < ?B)"
    using Suc.hyps(2) lt by (intro Suc.hyps(1) len2 nw2) simp_all
  have old: "xs2 ! k = xs ! k" if "k < i" for k
    using that by (simp add: xs1_def xs2_def)
  have cur: "xs2 ! i = xs ! i mod ?B"
    using Suc.prems(1) lt by (simp add: xs1_def xs2_def)
  have curlt: "xs2 ! i < ?B"
    unfolding cur using OVERFLOW_pos[of pf] by simp
  let ?r = "bc_digits_adjustment_loop pf xs2 n (i + 1)"
  have c1: "\<forall>k<i. ?r ! k = xs ! k"
    using IH old by simp
  have d1: "\<forall>k. i \<le> k \<and> k < n - 1 \<longrightarrow> ?r ! k < ?B"
  proof (intro allI impI)
    fix k
    assume k: "i \<le> k \<and> k < n - 1"
    show "?r ! k < ?B"
    proof (cases "k = i")
      case True
      with IH have "?r ! k = xs2 ! i" by simp
      with curlt show ?thesis by simp
    next
      case False
      with k have "i + 1 \<le> k \<and> k < n - 1" by simp
      with IH show ?thesis by blast
    qed
  qed
  from IH v2 c1 d1 show ?case
    unfolding step by simp
qed

text \<open>
  C7. For an accumulator of \<open>n \<ge> 1\<close> limbs on which the carry propagation does not
  exceed \<^verbatim>\<open>BC_UINT_T\<close>, one pass of \<^verbatim>\<open>bc_digits_adjustment\<close> keeps the length, leaves every
  limb but the last strictly below \<open>10 ^ W\<close>, keeps the number the array stands for in base
  \<open>10 ^ W\<close>, and leaves in the last limb all that is above it: the last limb is this number
  divided by \<open>(10 ^ W) ^ (n - 1)\<close>, not reduced modulo \<open>10 ^ W\<close>.
\<close>

theorem bc_digits_adjustment_pass:
  assumes "length prod_uint = n" "1 \<le> n" "\<not> bc_digits_adjustment_wraps pf prod_uint n 0"
  shows "length (bc_digits_adjustment pf prod_uint n) = n
     \<and> (\<forall>k<n - 1. bc_digits_adjustment pf prod_uint n ! k < BC_MUL_UINT_OVERFLOW pf)
     \<and> limbs_val (BC_MUL_UINT_OVERFLOW pf) (bc_digits_adjustment pf prod_uint n)
         = limbs_val (BC_MUL_UINT_OVERFLOW pf) prod_uint
     \<and> bc_digits_adjustment pf prod_uint n ! (n - 1)
         = limbs_val (BC_MUL_UINT_OVERFLOW pf) prod_uint div BC_MUL_UINT_OVERFLOW pf ^ (n - 1)
     \<and> BC_MUL_UINT_OVERFLOW pf = 10 ^ BC_MUL_UINT_DIGITS pf"
proof -
  let ?r = "bc_digits_adjustment pf prod_uint n"
  have inv: "length ?r = n \<and> limbs_val (BC_MUL_UINT_OVERFLOW pf) ?r = limbs_val (BC_MUL_UINT_OVERFLOW pf) prod_uint
     \<and> (\<forall>k<0. ?r ! k = prod_uint ! k)
     \<and> (\<forall>k. 0 \<le> k \<and> k < n - 1 \<longrightarrow> ?r ! k < BC_MUL_UINT_OVERFLOW pf)"
    unfolding bc_digits_adjustment_def using assms by (intro bc_digits_adjustment_loop_inv) simp_all
  then have small: "\<forall>k<n - 1. ?r ! k < BC_MUL_UINT_OVERFLOW pf"
    by simp
  have "limbs_val (BC_MUL_UINT_OVERFLOW pf) ?r div BC_MUL_UINT_OVERFLOW pf ^ (n - 1) = ?r ! (n - 1)"
    using inv assms(2) small OVERFLOW_pos by (intro limbs_val_last) simp_all
  with inv small OVERFLOW_eq show ?thesis
    by simp
qed

theorem bc_digits_adjustment_pass_witness:
  "length [123456789012, 5::nat] = 2 \<and> (1::nat) \<le> 2
   \<and> \<not> bc_digits_adjustment_wraps (Platform SIZEOF_SIZE_T_8 BC_LITTLE_ENDIAN) [123456789012, 5] 2 0
   \<and> bc_digits_adjustment (Platform SIZEOF_SIZE_T_8 BC_LITTLE_ENDIAN) [123456789012, 5] 2 = [56789012, 1239]
   \<and> limbs_val (BC_MUL_UINT_OVERFLOW (Platform SIZEOF_SIZE_T_8 BC_LITTLE_ENDIAN))
        (bc_digits_adjustment (Platform SIZEOF_SIZE_T_8 BC_LITTLE_ENDIAN) [123456789012, 5] 2)
      = limbs_val (BC_MUL_UINT_OVERFLOW (Platform SIZEOF_SIZE_T_8 BC_LITTLE_ENDIAN)) [123456789012, 5]"
proof -
  let ?pf = "Platform SIZEOF_SIZE_T_8 BC_LITTLE_ENDIAN"
  have w: "\<not> bc_digits_adjustment_wraps ?pf [123456789012, 5] 2 0"
    by (simp add: bc_digits_adjustment_wraps.simps BC_UINT_MAX_def BC_UINT_BITS_def
        BC_MUL_UINT_OVERFLOW_def BC_UINT_T_def)
  have r: "bc_digits_adjustment ?pf [123456789012, 5] 2 = [56789012, 1239]"
    by (simp add: bc_digits_adjustment_def bc_digits_adjustment_loop.simps BC_UINT_BITS_def
        BC_MUL_UINT_OVERFLOW_def BC_UINT_T_def)
  from bc_digits_adjustment_pass[OF _ _ w] r w show ?thesis
    by simp
qed

subsection \<open>Conversion of an operand to limbs\<close>

lemma deref_nat: "j < length buf \<Longrightarrow> deref buf (int j) = buf ! j"
  by (simp add: deref_def)

lemma slice_sum:
  assumes "len \<le> nlen" "nlen \<le> length buf"
  shows "(\<Sum>k<len. deref buf (int nlen - 1 - int k) * 10 ^ k)
           = digits_val (take len (drop (nlen - len) buf))"
proof -
  let ?s = "take len (drop (nlen - len) buf)"
  have ls: "length ?s = len"
    using assms by simp
  have "rev ?s = map (\<lambda>k. deref buf (int nlen - 1 - int k)) [0..<len]"
  proof (rule nth_equalityI)
    show "length (rev ?s) = length (map (\<lambda>k. deref buf (int nlen - 1 - int k)) [0..<len])"
      using ls by simp
  next
    fix k
    assume "k < length (rev ?s)"
    then have k: "k < len" using ls by simp
    then have "rev ?s ! k = ?s ! (len - 1 - k)"
      using ls by (simp add: rev_nth)
    also have "\<dots> = buf ! (nlen - len + (len - 1 - k))"
      using k assms by simp
    also have "nlen - len + (len - 1 - k) = nlen - 1 - k"
      using k assms by simp
    also have "buf ! (nlen - 1 - k) = deref buf (int nlen - 1 - int k)"
    proof -
      have "int nlen - 1 - int k = int (nlen - 1 - k)"
        using k assms by simp
      moreover have "nlen - 1 - k < length buf"
        using k assms by simp
      ultimately show ?thesis
        using deref_nat[of "nlen - 1 - k" buf] by (simp only:)
    qed
    finally show "rev ?s ! k = map (\<lambda>k. deref buf (int nlen - 1 - int k)) [0..<len] ! k"
      using k by simp
  qed
  then show ?thesis
    by (simp add: digits_val_def limbs_val_map_upt)
qed

lemma bc_partial_convert_to_uint_slice:
  assumes "len \<le> BC_MUL_UINT_DIGITS pf" "len \<le> nlen" "nlen \<le> length buf" "\<forall>d\<in>set buf. d \<le> 9"
  shows "bc_partial_convert_to_uint pf buf (int nlen - 1) len
           = digits_val (take len (drop (nlen - len) buf))"
proof -
  have "bc_partial_convert_to_uint pf buf (int nlen - 1) len
          = (\<Sum>i<len. deref buf (int nlen - 1 - int i) * 10 ^ i)"
    using assms by (intro bc_partial_convert_to_uint_sum) simp_all
  with slice_sum[OF assms(2,3)] show ?thesis
    by simp
qed

lemma arr_size_step:
  assumes "0 < nlen" "0 < W"
  shows "(nlen + W - 1) div W = Suc ((nlen - min W nlen + W - 1) div W)"
proof (cases "nlen \<le> W")
  case True
  then have "(nlen + W - 1) div W = 1"
    using assms by (intro div_nat_eqI) simp_all
  with True assms show ?thesis
    by (simp add: min_def)
next
  case False
  then have "nlen + W - 1 = (nlen - W + W - 1) + W"
    using assms by simp
  then have "(nlen + W - 1) div W = (nlen - W + W - 1) div W + 1"
    using assms by (simp only: div_add_self2)
  with False show ?thesis
    by (simp add: min_def)
qed

lemma bc_convert_to_uint_inv:
  assumes dig: "\<forall>d\<in>set buf. d \<le> 9"
  shows "nlen \<le> length buf \<Longrightarrow>
         i + (nlen + BC_MUL_UINT_DIGITS pf - 1) div BC_MUL_UINT_DIGITS pf = length n_uint \<Longrightarrow>
         length (bc_convert_to_uint pf n_uint buf (int nlen - 1) nlen i) = length n_uint
         \<and> take i (bc_convert_to_uint pf n_uint buf (int nlen - 1) nlen i) = take i n_uint
         \<and> (\<forall>x\<in>set (drop i (bc_convert_to_uint pf n_uint buf (int nlen - 1) nlen i)).
               x < BC_MUL_UINT_OVERFLOW pf)
         \<and> limbs_val (BC_MUL_UINT_OVERFLOW pf)
              (drop i (bc_convert_to_uint pf n_uint buf (int nlen - 1) nlen i))
             = digits_val (take nlen buf)"
proof (induction nlen arbitrary: n_uint i rule: less_induct)
  case (less nlen)
  let ?W = "BC_MUL_UINT_DIGITS pf"
  let ?B = "BC_MUL_UINT_OVERFLOW pf"
  show ?case
  proof (cases "nlen = 0")
    case True
    then have "(nlen + ?W - 1) div ?W = 0"
      using DIGITS_pos[of pf] by simp
    with less.prems True show ?thesis
      by (simp add: bc_convert_to_uint.simps digits_val_def)
  next
    case False
    define len where "len = min ?W nlen"
    define nlen' where "nlen' = nlen - len"
    define v where "v = bc_partial_convert_to_uint pf buf (int nlen - 1) len"
    let ?s = "take len (drop nlen' buf)"
    let ?r = "bc_convert_to_uint pf (n_uint[i := v]) buf (int nlen' - 1) nlen' (i + 1)"
    have lenpos: "0 < len" and lenW: "len \<le> ?W" and lenn: "len \<le> nlen"
      using False DIGITS_pos[of pf] by (simp_all add: len_def)
    have vs: "v = digits_val ?s"
      unfolding v_def nlen'_def using lenW lenn less.prems(1) dig
      by (rule bc_partial_convert_to_uint_slice)
    have "\<forall>d\<in>set ?s. d \<le> 9"
      using dig by (auto dest!: in_set_takeD in_set_dropD)
    then have "digits_val ?s < 10 ^ length ?s"
      by (rule digits_val_bound)
    moreover have ls: "length ?s = len"
      using less.prems(1) lenn by (simp add: nlen'_def)
    ultimately have vlt: "v < 10 ^ len"
      by (simp add: vs)
    have "(10::nat) ^ len \<le> 10 ^ ?W"
      using lenW by (simp add: power_increasing)
    with vlt have "v < 10 ^ ?W"
      by (rule less_le_trans)
    then have vB: "v < ?B"
      by (simp add: OVERFLOW_eq)
    have step: "bc_convert_to_uint pf n_uint buf (int nlen - 1) nlen i = ?r"
    proof -
      have e: "int nlen - 1 - int len = int nlen' - 1"
        using lenn by (simp add: nlen'_def)
      have "bc_convert_to_uint pf n_uint buf (int nlen - 1) nlen i
          = (let l = min ?W nlen
             in bc_convert_to_uint pf (n_uint[i := bc_partial_convert_to_uint pf buf (int nlen - 1) l])
                  buf (int nlen - 1 - int l) (nlen - l) (i + 1))"
        using False by (subst bc_convert_to_uint.simps) simp
      also have "\<dots> = bc_convert_to_uint pf (n_uint[i := v]) buf (int nlen - 1 - int len) nlen' (i + 1)"
        by (simp only: Let_def len_def v_def nlen'_def)
      finally show ?thesis
        by (simp only: e)
    qed
    have sz: "(nlen + ?W - 1) div ?W = Suc ((nlen' + ?W - 1) div ?W)"
      using arr_size_step[of nlen ?W] False DIGITS_pos[of pf] by (simp add: nlen'_def len_def)
    have ilt: "i < length n_uint"
      using less.prems(2) sz by simp
    have IH: "length ?r = length (n_uint[i := v])
         \<and> take (i + 1) ?r = take (i + 1) (n_uint[i := v])
         \<and> (\<forall>x\<in>set (drop (i + 1) ?r). x < ?B)
         \<and> limbs_val ?B (drop (i + 1) ?r) = digits_val (take nlen' buf)"
      using lenpos lenn less.prems sz
      by (intro less.IH) (simp_all add: nlen'_def)
    then have lr: "length ?r = length n_uint"
      by simp
    have "take (i + 1) ?r ! i = take (i + 1) (n_uint[i := v]) ! i"
      using IH by simp
    then have ri: "?r ! i = v"
      using ilt by simp
    have "take i (take (i + 1) ?r) = take i (take (i + 1) (n_uint[i := v]))"
      using IH by simp
    then have ti: "take i ?r = take i n_uint"
      by (simp add: min_def)
    have dr: "drop i ?r = v # drop (i + 1) ?r"
      using ilt lr ri Cons_nth_drop_Suc[of i ?r] by simp
    have tk: "take nlen buf = take nlen' buf @ ?s"
    proof -
      have "nlen = nlen' + len"
        using lenn by (simp add: nlen'_def)
      then show ?thesis
        by (simp add: take_add)
    qed
    have "digits_val (take nlen buf) = digits_val (take nlen' buf @ ?s)"
      by (simp only: tk)
    also have "\<dots> = digits_val (take nlen' buf) * 10 ^ length ?s + digits_val ?s"
      by (rule digits_val_append)
    finally have "digits_val (take nlen buf) = digits_val (take nlen' buf) * 10 ^ len + v"
      by (simp only: ls vs)
    moreover have "digits_val (take nlen' buf) * 10 ^ len = ?B * digits_val (take nlen' buf)"
    proof (cases "nlen \<le> ?W")
      case True
      then have "nlen' = 0"
        by (simp add: nlen'_def len_def)
      then show ?thesis
        by (simp add: digits_val_def)
    next
      case False
      then have "len = ?W"
        by (simp add: len_def)
      then show ?thesis
        by (simp add: OVERFLOW_eq)
    qed
    moreover have "limbs_val ?B (drop i ?r) = v + ?B * limbs_val ?B (drop (i + 1) ?r)"
      by (simp only: dr limbs_val.simps)
    ultimately have val: "limbs_val ?B (drop i ?r) = digits_val (take nlen buf)"
      using IH by simp
    have "\<forall>x\<in>set (v # drop (i + 1) ?r). x < ?B"
      using IH vB by simp
    then have "\<forall>x\<in>set (drop i ?r). x < ?B"
      by (simp only: dr)
    with lr ti val show ?thesis
      unfolding step by simp
  qed
qed

lemma bc_convert_to_uint_limbs:
  assumes "\<forall>d\<in>set buf. d \<le> 9" "nlen \<le> length buf"
    "length n_uint = (nlen + BC_MUL_UINT_DIGITS pf - 1) div BC_MUL_UINT_DIGITS pf"
  shows "length (bc_convert_to_uint pf n_uint buf (int nlen - 1) nlen 0) = length n_uint"
    and "\<forall>x\<in>set (bc_convert_to_uint pf n_uint buf (int nlen - 1) nlen 0). x < BC_MUL_UINT_OVERFLOW pf"
    and "limbs_val (BC_MUL_UINT_OVERFLOW pf) (bc_convert_to_uint pf n_uint buf (int nlen - 1) nlen 0)
           = digits_val (take nlen buf)"
  using bc_convert_to_uint_inv[OF assms(1,2), of 0 pf n_uint] assms(3) by simp_all

subsection \<open>Clearing the accumulator\<close>

lemma bc_zero_fill_eq:
  "length xs = n \<Longrightarrow> i \<le> n \<Longrightarrow> bc_zero_fill xs n i = take i xs @ replicate (n - i) 0"
proof (induction "n - i" arbitrary: xs i)
  case 0
  then show ?case
    by (simp add: bc_zero_fill.simps)
next
  case (Suc m)
  then have lt: "i < n" by simp
  have "bc_zero_fill xs n i = bc_zero_fill (xs[i := 0]) n (i + 1)"
    using lt by (subst bc_zero_fill.simps) simp
  also have "\<dots> = take (i + 1) (xs[i := 0]) @ replicate (n - (i + 1)) 0"
    using Suc lt by (intro Suc.hyps(1)) simp_all
  also have "take (i + 1) (xs[i := 0]) = take i xs @ [0]"
    using lt Suc.prems(1) by (simp add: take_Suc_conv_app_nth)
  also have "(take i xs @ [0]) @ replicate (n - (i + 1)) 0 = take i xs @ replicate (n - i) 0"
    using lt by (simp add: replicate_Suc[symmetric] Suc_diff_Suc del: replicate_Suc)
  finally show ?case .
qed

lemma bc_zero_fill_all: "length xs = n \<Longrightarrow> bc_zero_fill xs n 0 = replicate n 0"
  using bc_zero_fill_eq[of xs n 0] by simp

subsection \<open>The threshold \<^verbatim>\<open>BC_MUL_MAX_ADD_COUNT\<close>\<close>

lemma MAX_ADD_COUNT_pos: "1 \<le> BC_MUL_MAX_ADD_COUNT pf"
  by (cases "sizeof_size_t pf")
     (simp_all add: BC_MUL_MAX_ADD_COUNT_def BC_UINT_MAX_def BC_UINT_BITS_def BC_UINT_T_def
        BC_MUL_UINT_OVERFLOW_def)

lemma slot_bound_MAX_ADD_COUNT:
  "slot_bound pf (BC_MUL_MAX_ADD_COUNT pf) + BC_UINT_MAX pf div BC_MUL_UINT_OVERFLOW pf
     \<le> BC_UINT_MAX pf"
  by (cases "sizeof_size_t pf")
     (simp_all add: slot_bound_def BC_MUL_MAX_ADD_COUNT_def BC_UINT_MAX_def BC_UINT_BITS_def
        BC_UINT_T_def BC_MUL_UINT_OVERFLOW_def)

lemma slot_bound_le_UINT_MAX:
  assumes "c \<le> BC_MUL_MAX_ADD_COUNT pf"
  shows "slot_bound pf c \<le> BC_UINT_MAX pf"
proof -
  have "slot_bound pf c \<le> slot_bound pf (BC_MUL_MAX_ADD_COUNT pf)"
    using assms by (simp add: slot_bound_def mult_le_mono1)
  with slot_bound_MAX_ADD_COUNT[of pf] show ?thesis
    by simp
qed

lemma slot_bound_mono: "c \<le> c' \<Longrightarrow> slot_bound pf c \<le> slot_bound pf c'"
  by (simp add: slot_bound_def mult_le_mono1)

lemma slot_bound_Suc:
  "slot_bound pf (Suc c)
     = slot_bound pf c + (BC_MUL_UINT_OVERFLOW pf - 1) * (BC_MUL_UINT_OVERFLOW pf - 1)"
  by (simp add: slot_bound_def)

lemma slot_bound_0: "x \<le> slot_bound pf 0 \<longleftrightarrow> x < BC_MUL_UINT_OVERFLOW pf"
  using OVERFLOW_pos[of pf] by (auto simp: slot_bound_def)

subsection \<open>Carry normalisation does not wrap on bounded limbs\<close>

lemma bc_digits_adjustment_no_wrap_from:
  assumes Q: "Q + BC_UINT_MAX pf div BC_MUL_UINT_OVERFLOW pf \<le> BC_UINT_MAX pf"
  shows "length xs = n \<Longrightarrow> i < n \<Longrightarrow>
         xs ! i \<le> Q + BC_UINT_MAX pf div BC_MUL_UINT_OVERFLOW pf \<Longrightarrow>
         (\<forall>k. i < k \<and> k < n \<longrightarrow> xs ! k \<le> Q) \<Longrightarrow>
         \<not> bc_digits_adjustment_wraps pf xs n i"
proof (induction "n - 1 - i" arbitrary: xs i)
  case 0
  then have "\<not> i < n - 1" by simp
  then show ?case
    by (subst bc_digits_adjustment_wraps.simps) simp
next
  case (Suc m)
  let ?B = "BC_MUL_UINT_OVERFLOW pf"
  let ?M = "BC_UINT_MAX pf"
  have lt: "i < n - 1" using Suc.hyps(2) by simp
  define q where "q = xs ! i div ?B"
  define xs1 where "xs1 = xs[i + 1 := xs ! (i + 1) + q]"
  define xs2 where "xs2 = xs1[i := xs1 ! i mod ?B]"
  have "xs ! i \<le> ?M"
    using Suc.prems(3) Q by simp
  then have qle: "q \<le> ?M div ?B"
    unfolding q_def by (rule div_le_mono)
  have "xs ! (i + 1) \<le> Q"
    using Suc.prems(4) lt by simp
  from this qle have sum: "xs ! (i + 1) + q \<le> Q + ?M div ?B"
    by (rule add_mono)
  with Q have nw: "xs ! (i + 1) + q \<le> ?M"
    by simp
  have wrapfree: "BC_UINT_T pf (xs ! (i + 1) + q) = xs ! (i + 1) + q"
    using nw by (rule BC_UINT_T_id)
  have unf: "bc_digits_adjustment_wraps pf xs n i
          = (?M < xs ! (i + 1) + q \<or> bc_digits_adjustment_wraps pf xs2 n (i + 1))"
    using lt wrapfree
    by (subst bc_digits_adjustment_wraps.simps) (simp add: Let_def q_def xs1_def xs2_def)
  have len2: "length xs2 = n"
    using Suc.prems(1) by (simp add: xs1_def xs2_def)
  have nxt: "xs2 ! (i + 1) \<le> Q + ?M div ?B"
    using sum Suc.prems(1) lt by (simp add: xs1_def xs2_def)
  have rest: "\<forall>k. i + 1 < k \<and> k < n \<longrightarrow> xs2 ! k \<le> Q"
    using Suc.prems(4) by (simp add: xs1_def xs2_def)
  have "\<not> bc_digits_adjustment_wraps pf xs2 n (i + 1)"
    using Suc.hyps(2) lt by (intro Suc.hyps(1) len2 nxt rest) simp_all
  with nw show ?case
    unfolding unf by simp
qed

lemma bc_digits_adjustment_no_wrap:
  assumes "Q + BC_UINT_MAX pf div BC_MUL_UINT_OVERFLOW pf \<le> BC_UINT_MAX pf"
    and "length xs = n" "1 \<le> n" "\<forall>k<n. xs ! k \<le> Q"
  shows "\<not> bc_digits_adjustment_wraps pf xs n 0"
  using assms by (intro bc_digits_adjustment_no_wrap_from[OF assms(1)]) (simp_all add: trans_le_add1)

lemma bc_digits_adjustment_props:
  assumes "length xs = n" "1 \<le> n" "\<not> bc_digits_adjustment_wraps pf xs n 0"
  shows "length (bc_digits_adjustment pf xs n) = n"
    and "\<forall>k<n - 1. bc_digits_adjustment pf xs n ! k < BC_MUL_UINT_OVERFLOW pf"
    and "limbs_val (BC_MUL_UINT_OVERFLOW pf) (bc_digits_adjustment pf xs n)
           = limbs_val (BC_MUL_UINT_OVERFLOW pf) xs"
    and "bc_digits_adjustment pf xs n ! (n - 1)
           = limbs_val (BC_MUL_UINT_OVERFLOW pf) xs div BC_MUL_UINT_OVERFLOW pf ^ (n - 1)"
proof -
  let ?r = "bc_digits_adjustment pf xs n"
  have inv: "length ?r = n \<and> limbs_val (BC_MUL_UINT_OVERFLOW pf) ?r = limbs_val (BC_MUL_UINT_OVERFLOW pf) xs
     \<and> (\<forall>k<0. ?r ! k = xs ! k)
     \<and> (\<forall>k. 0 \<le> k \<and> k < n - 1 \<longrightarrow> ?r ! k < BC_MUL_UINT_OVERFLOW pf)"
    unfolding bc_digits_adjustment_def using assms by (intro bc_digits_adjustment_loop_inv) simp_all
  then show len: "length ?r = n" and small: "\<forall>k<n - 1. ?r ! k < BC_MUL_UINT_OVERFLOW pf"
    and val: "limbs_val (BC_MUL_UINT_OVERFLOW pf) ?r = limbs_val (BC_MUL_UINT_OVERFLOW pf) xs"
    by simp_all
  have "limbs_val (BC_MUL_UINT_OVERFLOW pf) ?r div BC_MUL_UINT_OVERFLOW pf ^ (n - 1) = ?r ! (n - 1)"
    using len assms(2) small OVERFLOW_pos by (rule limbs_val_last)
  with val show "?r ! (n - 1) = limbs_val (BC_MUL_UINT_OVERFLOW pf) xs div BC_MUL_UINT_OVERFLOW pf ^ (n - 1)"
    by simp
qed

subsection \<open>The inner loop of the multiplication\<close>

lemma bc_mul_add_inner_inv:
  assumes x: "n1_uint ! i < BC_MUL_UINT_OVERFLOW pf"
    and n2: "\<forall>y\<in>set n2_uint. y < BC_MUL_UINT_OVERFLOW pf" "length n2_uint = b"
    and Q: "Q + (BC_MUL_UINT_OVERFLOW pf - 1) * (BC_MUL_UINT_OVERFLOW pf - 1) \<le> BC_UINT_MAX pf"
    and ib: "i + b \<le> n"
  shows "length p = n \<Longrightarrow> j \<le> b \<Longrightarrow>
         (\<forall>k<n. k < i + j \<longrightarrow> p ! k \<le> Q + (BC_MUL_UINT_OVERFLOW pf - 1) * (BC_MUL_UINT_OVERFLOW pf - 1)) \<Longrightarrow>
         (\<forall>k<n. i + j \<le> k \<longrightarrow> p ! k \<le> Q) \<Longrightarrow>
         \<not> bc_mul_add_inner_wraps pf n1_uint n2_uint b p i j
         \<and> length (bc_mul_add_inner pf n1_uint n2_uint b p i j) = n
         \<and> (\<forall>k<n. bc_mul_add_inner pf n1_uint n2_uint b p i j ! k
                \<le> Q + (BC_MUL_UINT_OVERFLOW pf - 1) * (BC_MUL_UINT_OVERFLOW pf - 1))
         \<and> limbs_val (BC_MUL_UINT_OVERFLOW pf) (bc_mul_add_inner pf n1_uint n2_uint b p i j)
             = limbs_val (BC_MUL_UINT_OVERFLOW pf) p
               + n1_uint ! i * BC_MUL_UINT_OVERFLOW pf ^ (i + j)
                 * limbs_val (BC_MUL_UINT_OVERFLOW pf) (drop j n2_uint)"
proof (induction "b - j" arbitrary: p j)
  case 0
  then have nlt: "\<not> j < b" and dr: "drop j n2_uint = []"
    using n2(2) by simp_all
  have e1: "bc_mul_add_inner pf n1_uint n2_uint b p i j = p"
    using nlt by (subst bc_mul_add_inner.simps) simp
  have e2: "\<not> bc_mul_add_inner_wraps pf n1_uint n2_uint b p i j"
    using nlt by (subst bc_mul_add_inner_wraps.simps) simp
  have "p ! k \<le> Q + (BC_MUL_UINT_OVERFLOW pf - 1) * (BC_MUL_UINT_OVERFLOW pf - 1)" if "k < n" for k
  proof (cases "k < i + j")
    case True
    with "0.prems"(3) that show ?thesis by simp
  next
    case False
    with "0.prems"(4) that have "p ! k \<le> Q" by simp
    then show ?thesis by simp
  qed
  with e2 "0.prems"(1) show ?case
    unfolding e1 dr by simp
next
  case (Suc m)
  let ?B = "BC_MUL_UINT_OVERFLOW pf"
  let ?M = "BC_UINT_MAX pf"
  let ?S = "(?B - 1) * (?B - 1)"
  let ?x = "n1_uint ! i"
  let ?y = "n2_uint ! j"
  have lt: "j < b" using Suc.hyps(2) by simp
  have ij: "i + j < n" using lt ib by simp
  have y: "?y < ?B"
    using n2 lt by simp
  have xy: "?x * ?y \<le> ?S"
    using x y by (intro mult_le_mono) simp_all
  have pij: "p ! (i + j) \<le> Q"
    using Suc.prems(3,4) ij by simp
  have t: "p ! (i + j) + ?x * ?y \<le> Q + ?S"
    using pij xy by (rule add_mono)
  have nw1: "?x * ?y \<le> ?M"
    using xy Q by simp
  have nw2: "p ! (i + j) + ?x * ?y \<le> ?M"
    using t Q by simp
  define p' where "p' = p[i + j := p ! (i + j) + ?x * ?y]"
  have upd: "p[i + j := BC_UINT_T pf (p ! (i + j) + BC_UINT_T pf (?x * ?y))] = p'"
    using nw1 nw2 by (simp add: BC_UINT_T_id p'_def)
  have unf1: "bc_mul_add_inner pf n1_uint n2_uint b p i j = bc_mul_add_inner pf n1_uint n2_uint b p' i (j + 1)"
    using lt by (subst bc_mul_add_inner.simps) (simp only: upd if_True)
  have unf2: "bc_mul_add_inner_wraps pf n1_uint n2_uint b p i j
          = (?M < ?x * ?y \<or> ?M < p ! (i + j) + ?x * ?y
             \<or> bc_mul_add_inner_wraps pf n1_uint n2_uint b p' i (j + 1))"
    using lt by (subst bc_mul_add_inner_wraps.simps) (simp only: upd if_True)
  have len': "length p' = n"
    using Suc.prems(1) by (simp add: p'_def)
  have lo': "\<forall>k<n. k < i + (j + 1) \<longrightarrow> p' ! k \<le> Q + ?S"
  proof (intro allI impI)
    fix k assume k: "k < n" "k < i + (j + 1)"
    show "p' ! k \<le> Q + ?S"
    proof (cases "k = i + j")
      case True
      then show ?thesis
        using t ij Suc.prems(1) by (simp add: p'_def)
    next
      case False
      with k have "k < i + j" by simp
      with Suc.prems(3) k(1) False show ?thesis
        by (simp add: p'_def)
    qed
  qed
  have hi': "\<forall>k<n. i + (j + 1) \<le> k \<longrightarrow> p' ! k \<le> Q"
    using Suc.prems(4) by (simp add: p'_def)
  have IH: "\<not> bc_mul_add_inner_wraps pf n1_uint n2_uint b p' i (j + 1)
         \<and> length (bc_mul_add_inner pf n1_uint n2_uint b p' i (j + 1)) = n
         \<and> (\<forall>k<n. bc_mul_add_inner pf n1_uint n2_uint b p' i (j + 1) ! k \<le> Q + ?S)
         \<and> limbs_val ?B (bc_mul_add_inner pf n1_uint n2_uint b p' i (j + 1))
             = limbs_val ?B p' + ?x * ?B ^ (i + (j + 1)) * limbs_val ?B (drop (j + 1) n2_uint)"
    using Suc.hyps(2) lt by (intro Suc.hyps(1) len' lo' hi') simp_all
  have v': "limbs_val ?B p' = limbs_val ?B p + ?x * ?y * ?B ^ (i + j)"
    unfolding p'_def using ij Suc.prems(1) by (intro limbs_val_add_at) simp
  have "drop j n2_uint = ?y # drop (j + 1) n2_uint"
    using lt n2(2) Cons_nth_drop_Suc[of j n2_uint] by simp
  then have dv: "limbs_val ?B (drop j n2_uint) = ?y + ?B * limbs_val ?B (drop (j + 1) n2_uint)"
    by (simp only: limbs_val.simps)
  have "limbs_val ?B p' + ?x * ?B ^ (i + (j + 1)) * limbs_val ?B (drop (j + 1) n2_uint)
      = limbs_val ?B p + ?x * ?B ^ (i + j) * limbs_val ?B (drop j n2_uint)"
    unfolding v' dv by (simp add: algebra_simps)
  with IH nw1 nw2 show ?case
    unfolding unf1 unf2 by simp
qed

subsection \<open>The outer loop of the multiplication\<close>

lemma limbs_val_take_Suc:
  "i < length xs \<Longrightarrow> limbs_val b (take (Suc i) xs) = limbs_val b (take i xs) + b ^ i * xs ! i"
  by (simp add: take_Suc_conv_app_nth limbs_val_append)

lemma limbs_product_bound:
  assumes "0 < B" "\<forall>x\<in>set xs. x < B" "\<forall>y\<in>set ys. y < B"
  shows "limbs_val B xs * limbs_val B ys < B ^ (length xs + length ys)"
proof -
  have "limbs_val B xs < B ^ length xs" and "limbs_val B ys < B ^ length ys"
    using assms by (simp_all add: limbs_val_bound)
  then have "limbs_val B xs * limbs_val B ys < B ^ length xs * B ^ length ys"
    by (intro mult_strict_mono') simp_all
  then show ?thesis
    by (simp add: power_add)
qed

lemma div_pow_last:
  fixes V B :: nat
  assumes "1 \<le> n" "V < B ^ n"
  shows "V div B ^ (n - 1) < B"
proof -
  obtain m where m: "n = Suc m"
    using assms(1) by (cases n) auto
  then have "V < B * B ^ m"
    using assms(2) by simp
  then have "V div B ^ m < B"
    by (rule less_mult_imp_div_less)
  then show ?thesis
    by (simp add: m)
qed

lemma bc_mul_add_outer_inv:
  assumes n1: "length n1_uint = a" "\<forall>x\<in>set n1_uint. x < BC_MUL_UINT_OVERFLOW pf"
    and n2: "length n2_uint = b" "\<forall>y\<in>set n2_uint. y < BC_MUL_UINT_OVERFLOW pf"
    and n: "n = a + b - 1" and npos: "1 \<le> n"
  shows "i \<le> a \<Longrightarrow> length p = n \<Longrightarrow> count \<le> BC_MUL_MAX_ADD_COUNT pf \<Longrightarrow>
         (\<forall>k<n. p ! k \<le> slot_bound pf count) \<Longrightarrow>
         limbs_val (BC_MUL_UINT_OVERFLOW pf) p
           = limbs_val (BC_MUL_UINT_OVERFLOW pf) (take i n1_uint) * limbs_val (BC_MUL_UINT_OVERFLOW pf) n2_uint \<Longrightarrow>
         \<not> bc_mul_add_outer_wraps pf n1_uint a n2_uint b p n count i
         \<and> length (bc_mul_add_outer pf n1_uint a n2_uint b p n count i) = n
         \<and> (\<forall>k<n. bc_mul_add_outer pf n1_uint a n2_uint b p n count i ! k
                \<le> slot_bound pf (BC_MUL_MAX_ADD_COUNT pf))
         \<and> limbs_val (BC_MUL_UINT_OVERFLOW pf) (bc_mul_add_outer pf n1_uint a n2_uint b p n count i)
             = limbs_val (BC_MUL_UINT_OVERFLOW pf) n1_uint * limbs_val (BC_MUL_UINT_OVERFLOW pf) n2_uint"
proof (induction "a - i" arbitrary: p count i)
  case 0
  then have ia: "i = a" by simp
  have e1: "bc_mul_add_outer pf n1_uint a n2_uint b p n count i = p"
    using ia by (subst bc_mul_add_outer.simps) simp
  have e2: "\<not> bc_mul_add_outer_wraps pf n1_uint a n2_uint b p n count i"
    using ia by (subst bc_mul_add_outer_wraps.simps) simp
  have "p ! k \<le> slot_bound pf (BC_MUL_MAX_ADD_COUNT pf)" if "k < n" for k
    using "0.prems"(3,4) that slot_bound_mono[of count "BC_MUL_MAX_ADD_COUNT pf" pf]
    by (meson le_trans)
  with e2 "0.prems"(2,5) ia n1(1) show ?case
    unfolding e1 by simp
next
  case (Suc m)
  let ?B = "BC_MUL_UINT_OVERFLOW pf"
  let ?K = "BC_MUL_MAX_ADD_COUNT pf"
  let ?S = "(?B - 1) * (?B - 1)"
  let ?V = "limbs_val ?B (take i n1_uint) * limbs_val ?B n2_uint"
  have lt: "i < a" using Suc.hyps(2) by simp
  have ib: "i + b \<le> n"
    using lt n by simp
  define adj where "adj = (?K \<le> count)"
  define p1 where "p1 = (if adj then bc_digits_adjustment pf p n else p)"
  define c1 where "c1 = (if adj then 0 else count)"
  define p2 where "p2 = bc_mul_add_inner pf n1_uint n2_uint b p1 i 0"
  have unf1: "bc_mul_add_outer pf n1_uint a n2_uint b p n count i
            = bc_mul_add_outer pf n1_uint a n2_uint b p2 n (c1 + 1) (i + 1)"
    using lt by (subst bc_mul_add_outer.simps) (simp add: Let_def adj_def p1_def c1_def p2_def)
  have unf2: "bc_mul_add_outer_wraps pf n1_uint a n2_uint b p n count i
            = ((adj \<and> bc_digits_adjustment_wraps pf p n 0)
               \<or> bc_mul_add_inner_wraps pf n1_uint n2_uint b p1 i 0
               \<or> bc_mul_add_outer_wraps pf n1_uint a n2_uint b p2 n (c1 + 1) (i + 1))"
    using lt by (subst bc_mul_add_outer_wraps.simps) (simp add: Let_def adj_def p1_def c1_def p2_def)
  have pK: "\<forall>k<n. p ! k \<le> slot_bound pf ?K"
    using Suc.prems(3,4) slot_bound_mono[of count ?K pf] by (meson le_trans)
  have nwadj: "\<not> bc_digits_adjustment_wraps pf p n 0"
    using slot_bound_MAX_ADD_COUNT Suc.prems(2) npos pK by (rule bc_digits_adjustment_no_wrap)
  have Vlt: "?V < ?B ^ n"
  proof -
    have "\<forall>x\<in>set (take i n1_uint). x < ?B"
      using n1(2) by (auto dest: in_set_takeD)
    then have "?V < ?B ^ (length (take i n1_uint) + length n2_uint)"
      using OVERFLOW_pos n2(2) by (intro limbs_product_bound) simp_all
    also have "length (take i n1_uint) + length n2_uint = i + b"
      using lt n1(1) n2(1) by simp
    also have "?B ^ (i + b) \<le> ?B ^ n"
      using ib OVERFLOW_pos[of pf] by (intro power_increasing) simp_all
    finally show ?thesis .
  qed
  have c1lt: "c1 < ?K"
    using MAX_ADD_COUNT_pos[of pf] by (simp add: c1_def adj_def)
  have len1: "length p1 = n"
    using bc_digits_adjustment_props(1)[OF Suc.prems(2) npos nwadj] Suc.prems(2)
    by (simp add: p1_def)
  have val1: "limbs_val ?B p1 = ?V"
    using bc_digits_adjustment_props(3)[OF Suc.prems(2) npos nwadj] Suc.prems(5)
    by (simp add: p1_def)
  have slots1: "\<forall>k<n. p1 ! k \<le> slot_bound pf c1"
  proof (cases adj)
    case False
    then show ?thesis
      using Suc.prems(4) by (simp add: p1_def c1_def)
  next
    case True
    have small: "\<forall>k<n - 1. bc_digits_adjustment pf p n ! k < ?B"
      by (rule bc_digits_adjustment_props(2)[OF Suc.prems(2) npos nwadj])
    have "bc_digits_adjustment pf p n ! (n - 1) = ?V div ?B ^ (n - 1)"
      using bc_digits_adjustment_props(4)[OF Suc.prems(2) npos nwadj] Suc.prems(5) by simp
    moreover have "?V div ?B ^ (n - 1) < ?B"
      using npos Vlt by (rule div_pow_last)
    ultimately have last: "bc_digits_adjustment pf p n ! (n - 1) < ?B"
      by simp
    have "bc_digits_adjustment pf p n ! k < ?B" if "k < n" for k
    proof (cases "k = n - 1")
      case True
      with last show ?thesis by simp
    next
      case False
      with that have "k < n - 1" by simp
      with small show ?thesis by simp
    qed
    then show ?thesis
      using True by (simp add: p1_def c1_def slot_bound_0)
  qed
  have Q: "slot_bound pf c1 + ?S \<le> BC_UINT_MAX pf"
    using slot_bound_le_UINT_MAX[of "Suc c1" pf] c1lt by (simp add: slot_bound_Suc)
  have xi: "n1_uint ! i < ?B"
    using n1 lt by simp
  have inner: "\<not> bc_mul_add_inner_wraps pf n1_uint n2_uint b p1 i 0
         \<and> length (bc_mul_add_inner pf n1_uint n2_uint b p1 i 0) = n
         \<and> (\<forall>k<n. bc_mul_add_inner pf n1_uint n2_uint b p1 i 0 ! k \<le> slot_bound pf c1 + ?S)
         \<and> limbs_val ?B (bc_mul_add_inner pf n1_uint n2_uint b p1 i 0)
             = limbs_val ?B p1 + n1_uint ! i * ?B ^ (i + 0) * limbs_val ?B (drop 0 n2_uint)"
    using slots1 by (intro bc_mul_add_inner_inv[OF xi n2(2) n2(1) Q ib] len1) (simp_all add: trans_le_add1)
  then have len2: "length p2 = n"
    and slots2: "\<forall>k<n. p2 ! k \<le> slot_bound pf (c1 + 1)"
    and nwin: "\<not> bc_mul_add_inner_wraps pf n1_uint n2_uint b p1 i 0"
    by (simp_all add: p2_def slot_bound_Suc)
  have "limbs_val ?B p2 = ?V + n1_uint ! i * ?B ^ i * limbs_val ?B n2_uint"
    using inner val1 by (simp add: p2_def)
  also have "\<dots> = limbs_val ?B (take (i + 1) n1_uint) * limbs_val ?B n2_uint"
    using lt n1(1) by (simp add: limbs_val_take_Suc algebra_simps)
  finally have val2: "limbs_val ?B p2 = limbs_val ?B (take (i + 1) n1_uint) * limbs_val ?B n2_uint" .
  have IH: "\<not> bc_mul_add_outer_wraps pf n1_uint a n2_uint b p2 n (c1 + 1) (i + 1)
         \<and> length (bc_mul_add_outer pf n1_uint a n2_uint b p2 n (c1 + 1) (i + 1)) = n
         \<and> (\<forall>k<n. bc_mul_add_outer pf n1_uint a n2_uint b p2 n (c1 + 1) (i + 1) ! k
                \<le> slot_bound pf ?K)
         \<and> limbs_val ?B (bc_mul_add_outer pf n1_uint a n2_uint b p2 n (c1 + 1) (i + 1))
             = limbs_val ?B n1_uint * limbs_val ?B n2_uint"
    using Suc.hyps(2) lt c1lt by (intro Suc.hyps(1) len2 slots2 val2) simp_all
  with nwadj nwin show ?case
    unfolding unf1 unf2 by simp
qed

subsection \<open>The accumulator of \<^verbatim>\<open>bc_standard_mul\<close>\<close>

lemma limb_count_pos: "1 \<le> len \<Longrightarrow> 1 \<le> limb_count pf len"
  using DIGITS_pos[of pf] by (simp add: limb_count_def Suc_le_eq div_greater_zero_iff)

lemma bc_convert_to_uint_limb_count:
  assumes "\<forall>d\<in>set buf. d \<le> 9" "nlen \<le> length buf" "length n_uint = limb_count pf nlen"
  shows "length (bc_convert_to_uint pf n_uint buf (int nlen - 1) nlen 0) = limb_count pf nlen"
    and "\<forall>x\<in>set (bc_convert_to_uint pf n_uint buf (int nlen - 1) nlen 0). x < BC_MUL_UINT_OVERFLOW pf"
    and "limbs_val (BC_MUL_UINT_OVERFLOW pf) (bc_convert_to_uint pf n_uint buf (int nlen - 1) nlen 0)
           = digits_val (take nlen buf)"
proof -
  have l: "length n_uint = (nlen + BC_MUL_UINT_DIGITS pf - 1) div BC_MUL_UINT_DIGITS pf"
    using assms(3) by (simp only: limb_count_def)
  note c = bc_convert_to_uint_limbs[OF assms(1,2) l]
  show "length (bc_convert_to_uint pf n_uint buf (int nlen - 1) nlen 0) = limb_count pf nlen"
    using c(1) assms(3) by (rule trans)
  show "\<forall>x\<in>set (bc_convert_to_uint pf n_uint buf (int nlen - 1) nlen 0). x < BC_MUL_UINT_OVERFLOW pf"
    by (rule c(2))
  show "limbs_val (BC_MUL_UINT_OVERFLOW pf) (bc_convert_to_uint pf n_uint buf (int nlen - 1) nlen 0)
           = digits_val (take nlen buf)"
    by (rule c(3))
qed

lemma bc_standard_mul_arrays_props:
  assumes "n1len \<le> length (n_value n1)" "\<forall>d\<in>set (n_value n1). d \<le> 9"
    and "n2len \<le> length (n_value n2)" "\<forall>d\<in>set (n_value n2). d \<le> 9"
  shows "\<exists>u1 u2. bc_standard_mul_arrays pf heap n1 n1len n2 n2len
            = (u1, u2, replicate (limb_count pf n1len + limb_count pf n2len - 1) 0)
         \<and> length u1 = limb_count pf n1len \<and> (\<forall>x\<in>set u1. x < BC_MUL_UINT_OVERFLOW pf)
         \<and> limbs_val (BC_MUL_UINT_OVERFLOW pf) u1 = digits_val (take n1len (n_value n1))
         \<and> length u2 = limb_count pf n2len \<and> (\<forall>x\<in>set u2. x < BC_MUL_UINT_OVERFLOW pf)
         \<and> limbs_val (BC_MUL_UINT_OVERFLOW pf) u2 = digits_val (take n2len (n_value n2))"
proof -
  let ?a = "limb_count pf n1len" and ?b = "limb_count pf n2len"
  let ?n = "?a + ?b - 1"
  let ?buf = "safe_emalloc heap (?a + ?b + ?n)"
  let ?u1 = "bc_convert_to_uint pf (take ?a ?buf) (n_value n1) (int n1len - 1) n1len 0"
  let ?u2 = "bc_convert_to_uint pf (take ?b (drop ?a ?buf)) (n_value n2) (int n2len - 1) n2len 0"
  have l1: "length (take ?a ?buf) = ?a"
    by (simp add: safe_emalloc_def)
  have l2: "length (take ?b (drop ?a ?buf)) = ?b"
    by (simp add: safe_emalloc_def)
  have l3: "length (drop (?a + ?b) ?buf) = ?n"
    by (simp add: safe_emalloc_def)
  have z: "bc_zero_fill (drop (?a + ?b) ?buf) ?n 0 = replicate ?n 0"
    by (rule bc_zero_fill_all[OF l3])
  have eq: "bc_standard_mul_arrays pf heap n1 n1len n2 n2len = (?u1, ?u2, replicate ?n 0)"
    unfolding bc_standard_mul_arrays_def Let_def limb_count_def
    by (simp only: z[unfolded limb_count_def])
  note c1 = bc_convert_to_uint_limb_count[OF assms(2) assms(1) l1]
  note c2 = bc_convert_to_uint_limb_count[OF assms(4) assms(3) l2]
  have "length ?u1 = ?a" and "length ?u2 = ?b"
    by (rule c1(1), rule c2(1))
  with eq c1(2,3) c2(2,3) show ?thesis
    by blast
qed

lemma bc_standard_mul_limbs_props:
  assumes "n1len \<le> length (n_value n1)" "\<forall>d\<in>set (n_value n1). d \<le> 9"
    and "n2len \<le> length (n_value n2)" "\<forall>d\<in>set (n_value n2). d \<le> 9"
    and npos: "1 \<le> limb_count pf n1len + limb_count pf n2len - 1"
  shows "case bc_standard_mul_arrays pf heap n1 n1len n2 n2len of
           (n1_uint, n2_uint, prod_uint) \<Rightarrow>
             \<not> bc_mul_add_outer_wraps pf n1_uint (limb_count pf n1len) n2_uint (limb_count pf n2len)
                  prod_uint (limb_count pf n1len + limb_count pf n2len - 1) 0 0
             \<and> \<not> bc_digits_adjustment_wraps pf
                  (bc_mul_add_outer pf n1_uint (limb_count pf n1len) n2_uint (limb_count pf n2len)
                     prod_uint (limb_count pf n1len + limb_count pf n2len - 1) 0 0)
                  (limb_count pf n1len + limb_count pf n2len - 1) 0"
    and "length (bc_standard_mul_limbs pf heap n1 n1len n2 n2len)
           = limb_count pf n1len + limb_count pf n2len - 1"
    and "\<forall>k<limb_count pf n1len + limb_count pf n2len - 1 - 1.
           bc_standard_mul_limbs pf heap n1 n1len n2 n2len ! k < BC_MUL_UINT_OVERFLOW pf"
    and "limbs_val (BC_MUL_UINT_OVERFLOW pf) (bc_standard_mul_limbs pf heap n1 n1len n2 n2len)
           = digits_val (take n1len (n_value n1)) * digits_val (take n2len (n_value n2))"
proof -
  let ?B = "BC_MUL_UINT_OVERFLOW pf"
  let ?a = "limb_count pf n1len" and ?b = "limb_count pf n2len"
  let ?n = "?a + ?b - 1"
  obtain u1 u2 where arr: "bc_standard_mul_arrays pf heap n1 n1len n2 n2len = (u1, u2, replicate ?n 0)"
    and u1: "length u1 = ?a" "\<forall>x\<in>set u1. x < ?B"
      "limbs_val ?B u1 = digits_val (take n1len (n_value n1))"
    and u2: "length u2 = ?b" "\<forall>x\<in>set u2. x < ?B"
      "limbs_val ?B u2 = digits_val (take n2len (n_value n2))"
    using bc_standard_mul_arrays_props[OF assms(1-4), of pf heap] by blast
  let ?p = "bc_mul_add_outer pf u1 ?a u2 ?b (replicate ?n 0) ?n 0 0"
  have outer: "\<not> bc_mul_add_outer_wraps pf u1 ?a u2 ?b (replicate ?n 0) ?n 0 0
         \<and> length ?p = ?n
         \<and> (\<forall>k<?n. ?p ! k \<le> slot_bound pf (BC_MUL_MAX_ADD_COUNT pf))
         \<and> limbs_val ?B ?p = limbs_val ?B u1 * limbs_val ?B u2"
    by (intro bc_mul_add_outer_inv[OF u1(1,2) u2(1,2) refl npos])
       (simp_all add: limbs_val_replicate_0)
  then have lenp: "length ?p = ?n" and slots: "\<forall>k<?n. ?p ! k \<le> slot_bound pf (BC_MUL_MAX_ADD_COUNT pf)"
    by simp_all
  have nw: "\<not> bc_digits_adjustment_wraps pf ?p ?n 0"
    using slot_bound_MAX_ADD_COUNT lenp npos slots by (rule bc_digits_adjustment_no_wrap)
  have limbs: "bc_standard_mul_limbs pf heap n1 n1len n2 n2len = bc_digits_adjustment pf ?p ?n"
    by (simp add: bc_standard_mul_limbs_def Let_def arr[unfolded limb_count_def] limb_count_def)
  show "case bc_standard_mul_arrays pf heap n1 n1len n2 n2len of
           (n1_uint, n2_uint, prod_uint) \<Rightarrow>
             \<not> bc_mul_add_outer_wraps pf n1_uint ?a n2_uint ?b prod_uint ?n 0 0
             \<and> \<not> bc_digits_adjustment_wraps pf
                  (bc_mul_add_outer pf n1_uint ?a n2_uint ?b prod_uint ?n 0 0) ?n 0"
    using outer nw by (simp add: arr)
  show "length (bc_standard_mul_limbs pf heap n1 n1len n2 n2len) = ?n"
    unfolding limbs by (rule bc_digits_adjustment_props(1)[OF lenp npos nw])
  show "\<forall>k<?n - 1. bc_standard_mul_limbs pf heap n1 n1len n2 n2len ! k < ?B"
    unfolding limbs by (rule bc_digits_adjustment_props(2)[OF lenp npos nw])
  show "limbs_val ?B (bc_standard_mul_limbs pf heap n1 n1len n2 n2len)
           = digits_val (take n1len (n_value n1)) * digits_val (take n2len (n_value n2))"
    unfolding limbs using bc_digits_adjustment_props(3)[OF lenp npos nw] outer u1(3) u2(3)
    by simp
qed

text \<open>
  C4. In \<^verbatim>\<open>bc_standard_mul\<close>, for operands of at least one digit each (of any size), no
  multiplication and no addition of the double multiply-add loop exceeds the largest value
  of \<^verbatim>\<open>BC_UINT_T\<close>, nor does any addition of the carry normalisation that the loop triggers
  when its counter reaches \<^verbatim>\<open>BC_MUL_MAX_ADD_COUNT\<close>: wrap-around is unreachable. The
  threshold is \<open>UINT_MAX div (10 ^ W)\<^sup>2\<close>, that is 1844 for the 64-bit type and 42 for the
  32-bit one.
\<close>

theorem bc_standard_mul_never_wraps:
  assumes "1 \<le> len1" "len1 \<le> length (n_value n1)" "\<forall>d\<in>set (n_value n1). d \<le> 9"
    and "1 \<le> len2" "len2 \<le> length (n_value n2)" "\<forall>d\<in>set (n_value n2). d \<le> 9"
  shows "(case bc_standard_mul_arrays pf heap n1 len1 n2 len2 of
           (n1_uint, n2_uint, prod_uint) \<Rightarrow>
             \<not> bc_mul_add_outer_wraps pf n1_uint (limb_count pf len1) n2_uint (limb_count pf len2)
                  prod_uint (limb_count pf len1 + limb_count pf len2 - 1) 0 0)
         \<and> BC_MUL_MAX_ADD_COUNT pf
             = BC_UINT_MAX pf div (10 ^ BC_MUL_UINT_DIGITS pf * 10 ^ BC_MUL_UINT_DIGITS pf)
         \<and> BC_MUL_MAX_ADD_COUNT pf = (case sizeof_size_t pf of SIZEOF_SIZE_T_8 \<Rightarrow> 1844 | SIZEOF_SIZE_T_4 \<Rightarrow> 42)"
proof -
  have "1 \<le> limb_count pf len1"
    using assms(1) by (rule limb_count_pos)
  moreover have "1 \<le> limb_count pf len2"
    using assms(4) by (rule limb_count_pos)
  ultimately have npos: "1 \<le> limb_count pf len1 + limb_count pf len2 - 1"
    by simp
  have a: "case bc_standard_mul_arrays pf heap n1 len1 n2 len2 of
           (n1_uint, n2_uint, prod_uint) \<Rightarrow>
             \<not> bc_mul_add_outer_wraps pf n1_uint (limb_count pf len1) n2_uint (limb_count pf len2)
                  prod_uint (limb_count pf len1 + limb_count pf len2 - 1) 0 0"
    using bc_standard_mul_limbs_props(1)[OF assms(2,3,5,6) npos, of heap]
    by (simp split: prod.splits)
  have b: "BC_MUL_MAX_ADD_COUNT pf
             = BC_UINT_MAX pf div (10 ^ BC_MUL_UINT_DIGITS pf * 10 ^ BC_MUL_UINT_DIGITS pf)"
    using OVERFLOW_sq_le_UINT_MAX[of pf]
    by (simp add: BC_MUL_MAX_ADD_COUNT_def OVERFLOW_eq BC_UINT_T_id)
  have c: "BC_MUL_MAX_ADD_COUNT pf = (case sizeof_size_t pf of SIZEOF_SIZE_T_8 \<Rightarrow> 1844 | SIZEOF_SIZE_T_4 \<Rightarrow> 42)"
    by (cases "sizeof_size_t pf")
       (simp_all add: BC_MUL_MAX_ADD_COUNT_def BC_UINT_MAX_def BC_UINT_BITS_def BC_UINT_T_def
          BC_MUL_UINT_OVERFLOW_def)
  from a b c show ?thesis
    by simp
qed

theorem bc_standard_mul_never_wraps_witness:
  "(case bc_standard_mul_arrays (Platform SIZEOF_SIZE_T_8 BC_LITTLE_ENDIAN)
           \<lparr>emalloc_junk = (\<lambda>k. 7), num_junk = (\<lambda>k. 7)\<rparr>
           \<lparr>n_sign = PLUS, n_len = 20000, n_scale = 0, n_value = replicate 20000 9\<rparr> 20000
           \<lparr>n_sign = MINUS, n_len = 3, n_scale = 20001, n_value = replicate 20004 9\<rparr> 20004 of
      (n1_uint, n2_uint, prod_uint) \<Rightarrow>
        \<not> bc_mul_add_outer_wraps (Platform SIZEOF_SIZE_T_8 BC_LITTLE_ENDIAN)
             n1_uint (limb_count (Platform SIZEOF_SIZE_T_8 BC_LITTLE_ENDIAN) 20000)
             n2_uint (limb_count (Platform SIZEOF_SIZE_T_8 BC_LITTLE_ENDIAN) 20004)
             prod_uint
             (limb_count (Platform SIZEOF_SIZE_T_8 BC_LITTLE_ENDIAN) 20000
              + limb_count (Platform SIZEOF_SIZE_T_8 BC_LITTLE_ENDIAN) 20004 - 1) 0 0)
   \<and> limb_count (Platform SIZEOF_SIZE_T_8 BC_LITTLE_ENDIAN) 20000 = 2500
   \<and> BC_MUL_MAX_ADD_COUNT (Platform SIZEOF_SIZE_T_8 BC_LITTLE_ENDIAN) = 1844"
proof -
  let ?pf = "Platform SIZEOF_SIZE_T_8 BC_LITTLE_ENDIAN"
  let ?n1 = "\<lparr>n_sign = PLUS, n_len = 20000, n_scale = 0, n_value = replicate 20000 (9::nat)\<rparr>"
  let ?n2 = "\<lparr>n_sign = MINUS, n_len = 3, n_scale = 20001, n_value = replicate 20004 (9::nat)\<rparr>"
  let ?heap = "\<lparr>emalloc_junk = (\<lambda>k. 7), num_junk = (\<lambda>k. 7)\<rparr>"
  have h: "(1::nat) \<le> 20000" "20000 \<le> length (n_value ?n1)" "\<forall>d\<in>set (n_value ?n1). d \<le> 9"
    "(1::nat) \<le> 20004" "20004 \<le> length (n_value ?n2)" "\<forall>d\<in>set (n_value ?n2). d \<le> 9"
    by simp_all
  have l: "limb_count ?pf 20000 = 2500"
    by (simp add: limb_count_def BC_MUL_UINT_DIGITS_def)
  note t = bc_standard_mul_never_wraps[OF h, of ?pf ?heap]
  have "BC_MUL_MAX_ADD_COUNT ?pf = (case sizeof_size_t ?pf of SIZEOF_SIZE_T_8 \<Rightarrow> 1844 | SIZEOF_SIZE_T_4 \<Rightarrow> 42)"
    using t by (rule conjunct2[THEN conjunct2])
  then have k: "BC_MUL_MAX_ADD_COUNT ?pf = 1844"
    by simp
  from t[THEN conjunct1] l k show ?thesis
    by (intro conjI)
qed

end
